theory Spec2Isabelle
  imports Main "HOL-Library.Sublist" "HOL-Library.Product_Lexorder"
begin

section \<open>Python strings\<close>

text \<open>
  A Python \<open>str\<close> is a sequence of code points. The embedding covers the strings whose
  code points are all below 256 (ASCII and Latin-1): such a string is the \<open>char list\<close> of
  its code points, so \<open>length\<close> counts what Python's \<open>len\<close> counts. The character classes
  below are those of CPython 3 on that range: \<open>str.isspace\<close>, \<open>str.split\<close>,
  \<open>str.strip\<close> and the pattern \<open>\s\<close> share one set of whitespace characters;
  \<open>\d\<close> is the decimal digits, \<open>str.isdigit\<close> adds the superscripts 1, 2, 3;
  \<open>\w\<close> is \<open>str.isalnum\<close> plus the underscore.
\<close>

definition code :: "char \<Rightarrow> nat" where
  "code c = of_char c"

definition is_space :: "char \<Rightarrow> bool" where
  "is_space c = (let n = code c in
     (9 \<le> n \<and> n \<le> 13) \<or> (28 \<le> n \<and> n \<le> 32) \<or> n = 133 \<or> n = 160)"

definition is_digit :: "char \<Rightarrow> bool" where
  "is_digit c = (let n = code c in 48 \<le> n \<and> n \<le> 57)"

definition py_isdigit :: "char \<Rightarrow> bool" where
  "py_isdigit c = (let n = code c in is_digit c \<or> n = 178 \<or> n = 179 \<or> n = 185)"

definition is_upper_az :: "char \<Rightarrow> bool" where
  "is_upper_az c = (let n = code c in 65 \<le> n \<and> n \<le> 90)"

definition is_lower_az :: "char \<Rightarrow> bool" where
  "is_lower_az c = (let n = code c in 97 \<le> n \<and> n \<le> 122)"

definition is_letter_az :: "char \<Rightarrow> bool" where
  "is_letter_az c = (is_upper_az c \<or> is_lower_az c)"

definition is_word :: "char \<Rightarrow> bool" where
  "is_word c = (let n = code c in
     is_digit c \<or> is_letter_az c \<or> n = 95 \<or> n = 170 \<or> n = 178 \<or> n = 179 \<or> n = 181
     \<or> n = 185 \<or> n = 186 \<or> (188 \<le> n \<and> n \<le> 190) \<or> (192 \<le> n \<and> n \<le> 214)
     \<or> (216 \<le> n \<and> n \<le> 246) \<or> 248 \<le> n)"

definition lower_chr :: "char \<Rightarrow> char" where
  "lower_chr c = (let n = code c in
     if (65 \<le> n \<and> n \<le> 90) \<or> (192 \<le> n \<and> n \<le> 214) \<or> (216 \<le> n \<and> n \<le> 222)
     then char_of (n + 32) else c)"

definition upper_az_chr :: "char \<Rightarrow> char" where
  "upper_az_chr c = (if is_lower_az c then char_of (code c - 32) else c)"

definition str_lower :: "string \<Rightarrow> string" where
  "str_lower s = map lower_chr s"

definition str_strip :: "string \<Rightarrow> string" where
  "str_strip s = rev (dropWhile is_space (rev (dropWhile is_space s)))"

text \<open>\<open>s.strip(chars)\<close>: strips the characters of \<open>chars\<close> at both ends.\<close>

definition str_strip_chars :: "string \<Rightarrow> string \<Rightarrow> string" where
  "str_strip_chars chars s =
     rev (dropWhile (\<lambda>c. c \<in> set chars) (rev (dropWhile (\<lambda>c. c \<in> set chars) s)))"

text \<open>\<open>s.split()\<close>: the maximal runs of non-whitespace characters.\<close>

function str_split :: "string \<Rightarrow> string list" where
  "str_split s =
     (case dropWhile is_space s of
        [] \<Rightarrow> []
      | c # cs \<Rightarrow> (c # takeWhile (\<lambda>x. \<not> is_space x) cs)
                  # str_split (dropWhile (\<lambda>x. \<not> is_space x) cs))"
  by pat_completeness auto
termination
proof (relation "measure length")
  show "wf (measure length)" by simp
next
  fix s :: string and c cs
  assume a: "dropWhile is_space s = c # cs"
  have "length (dropWhile (\<lambda>x. \<not> is_space x) cs) \<le> length cs"
    by (rule length_dropWhile_le)
  also have "length cs < length (dropWhile is_space s)"
    by (simp add: a)
  also have "\<dots> \<le> length s"
    by (rule length_dropWhile_le)
  finally show "(dropWhile (\<lambda>x. \<not> is_space x) cs, s) \<in> measure length"
    by simp
qed

declare str_split.simps [simp del]

text \<open>\<open>x in s\<close> for strings, \<open>s.find(x)\<close> (\<open>-1\<close> when absent), \<open>sep.join(xs)\<close>.\<close>

fun contains :: "string \<Rightarrow> string \<Rightarrow> bool" where
  "contains x [] = (x = [])"
| "contains x (c # cs) = (prefix x (c # cs) \<or> contains x cs)"

fun find_from :: "string \<Rightarrow> string \<Rightarrow> int \<Rightarrow> int" where
  "find_from x [] i = (if x = [] then i else - 1)"
| "find_from x (c # cs) i = (if prefix x (c # cs) then i else find_from x cs (i + 1))"

definition str_find :: "string \<Rightarrow> string \<Rightarrow> int" where
  "str_find x s = find_from x s 0"

fun str_join :: "string \<Rightarrow> string list \<Rightarrow> string" where
  "str_join sep [] = []"
| "str_join sep [x] = x"
| "str_join sep (x # y # ys) = x @ sep @ str_join sep (y # ys)"

text \<open>
  \<open>s.split(sep, 1)\<close> for a non-empty separator: the text before the first occurrence
  and the text after it, or the whole string alone when the separator is absent.
\<close>

fun split_once :: "string \<Rightarrow> string \<Rightarrow> string list" where
  "split_once sep [] = [[]]"
| "split_once sep (c # cs) =
     (if prefix sep (c # cs) then [[], drop (length sep) (c # cs)]
      else (case split_once sep cs of
              [w] \<Rightarrow> [c # w]
            | w # ws \<Rightarrow> (c # w) # ws
            | [] \<Rightarrow> []))"

text \<open>
  \<open>s.splitlines()\<close>: the line boundaries below 256 are LF, VT, FF, CR, FS, GS, RS and
  NEL, with CR LF counting as one; a final boundary opens no further line.
\<close>

definition is_linebreak :: "char \<Rightarrow> bool" where
  "is_linebreak c = (let n = code c in (10 \<le> n \<and> n \<le> 13) \<or> (28 \<le> n \<and> n \<le> 30) \<or> n = 133)"

fun splitlines :: "string \<Rightarrow> string list" where
  "splitlines [] = []"
| "splitlines (c # cs) =
     (if is_linebreak c then
        (case cs of
           d # ds \<Rightarrow> if code c = 13 \<and> code d = 10 then [] # splitlines ds else [] # splitlines cs
         | [] \<Rightarrow> [[]])
      else (case splitlines cs of
              [] \<Rightarrow> [[c]]
            | l # ls \<Rightarrow> (c # l) # ls))"

text \<open>\<open>str(n)\<close> for an integer and \<open>int(s)\<close> for a string of decimal digits.\<close>

fun str_of_nat :: "nat \<Rightarrow> string" where
  "str_of_nat n =
     (if n < 10 then [char_of (48 + n)] else str_of_nat (n div 10) @ [char_of (48 + n mod 10)])"

declare str_of_nat.simps [simp del]

definition str_of_int :: "int \<Rightarrow> string" where
  "str_of_int i = (if i < 0 then CHR ''-'' # str_of_nat (nat (- i)) else str_of_nat (nat i))"

definition int_of_digits :: "string \<Rightarrow> int" where
  "int_of_digits s = foldl (\<lambda>a c. 10 * a + (int (code c) - 48)) 0 s"

section \<open>Regular expressions\<close>

text \<open>
  The patterns of the source are values of \<open>rx\<close>, matched by backtracking as Python's
  \<open>re\<close> does. A matching state is the character before the current position (\<open>None\<close> at
  the start of the string) and the text from the position on; \<open>rx_ends\<close> lists the states
  a pattern can end in, in the order backtracking tries them. \<open>Rep m n P\<close> is the greedy
  repetition \<open>{m,n}\<close> of a character class (\<open>n = None\<close>: unbounded), \<open>Bnd\<close> is \<open>\b\<close> and
  \<open>Bol\<close> is \<open>^\<close> without the multi-line flag.
\<close>

datatype rx =
    Lit string
  | Cls "char \<Rightarrow> bool"
  | Rep nat "nat option" "char \<Rightarrow> bool"
  | Seq rx rx
  | Alt rx rx
  | Opt rx
  | Bnd
  | Bol

type_synonym rx_state = "char option \<times> string"

definition adv :: "rx_state \<Rightarrow> nat \<Rightarrow> rx_state" where
  "adv st k = (if k = 0 then st else (Some (snd st ! (k - 1)), drop k (snd st)))"

definition word_before :: "rx_state \<Rightarrow> bool" where
  "word_before st = (case fst st of None \<Rightarrow> False | Some c \<Rightarrow> is_word c)"

definition word_after :: "rx_state \<Rightarrow> bool" where
  "word_after st = (case snd st of [] \<Rightarrow> False | c # _ \<Rightarrow> is_word c)"

fun rx_ends :: "rx \<Rightarrow> rx_state \<Rightarrow> rx_state list" where
  "rx_ends (Lit l) st = (if prefix l (snd st) then [adv st (length l)] else [])"
| "rx_ends (Cls P) st =
     (case snd st of [] \<Rightarrow> [] | c # cs \<Rightarrow> if P c then [(Some c, cs)] else [])"
| "rx_ends (Rep m n P) st =
     (let run = length (takeWhile P (snd st));
          hi = (case n of None \<Rightarrow> run | Some k \<Rightarrow> min k run)
      in map (adv st) (rev [m..<Suc hi]))"
| "rx_ends (Seq a b) st = concat (map (rx_ends b) (rx_ends a st))"
| "rx_ends (Alt a b) st = rx_ends a st @ rx_ends b st"
| "rx_ends (Opt a) st = rx_ends a st @ [st]"
| "rx_ends Bnd st = (if word_before st \<noteq> word_after st then [st] else [])"
| "rx_ends Bol st = (if fst st = None then [st] else [])"

fun seqs :: "rx list \<Rightarrow> rx" where
  "seqs [] = Lit []"
| "seqs [r] = r"
| "seqs (r # rs) = Seq r (seqs rs)"

fun alts :: "rx list \<Rightarrow> rx" where
  "alts [] = Cls (\<lambda>_. False)"
| "alts [r] = r"
| "alts (r # rs) = Alt r (alts rs)"

text \<open>\<open>re.match\<close> (as a truth value) and \<open>re.search\<close> (the start of the leftmost match).\<close>

definition rx_match :: "rx \<Rightarrow> string \<Rightarrow> bool" where
  "rx_match r s = (rx_ends r (None, s) \<noteq> [])"

fun rx_search_at :: "rx \<Rightarrow> char option \<Rightarrow> string \<Rightarrow> nat \<Rightarrow> nat option" where
  "rx_search_at r p [] i = (if rx_ends r (p, []) \<noteq> [] then Some i else None)"
| "rx_search_at r p (c # cs) i =
     (if rx_ends r (p, c # cs) \<noteq> [] then Some i else rx_search_at r (Some c) cs (Suc i))"

definition rx_search :: "rx \<Rightarrow> string \<Rightarrow> nat option" where
  "rx_search r s = rx_search_at r None s 0"

text \<open>\<open>re.sub(r"\s{2,}", " ", s).strip()\<close>\<close>

function collapse_ws :: "string \<Rightarrow> string" where
  "collapse_ws [] = []"
| "collapse_ws [c] = [c]"
| "collapse_ws (c # d # cs) =
     (if is_space c \<and> is_space d then CHR '' '' # collapse_ws (dropWhile is_space cs)
      else c # collapse_ws (d # cs))"
  by pat_completeness auto
termination
proof (relation "measure length")
  show "wf (measure length)" by simp
next
  fix c d :: char and cs :: string
  have "length (dropWhile is_space cs) \<le> length cs"
    by (rule length_dropWhile_le)
  then show "(dropWhile is_space cs, c # d # cs) \<in> measure length"
    by simp
next
  fix c d :: char and cs :: string
  show "(d # cs, c # d # cs) \<in> measure length"
    by simp
qed

definition norm_spaces :: "string \<Rightarrow> string" where
  "norm_spaces s = str_strip (collapse_ws s)"

section \<open>Year helpers\<close>

text \<open>
  \<open>CURRENT_YEAR\<close> is read from the clock when the module is loaded; it is the parameter
  \<open>cy\<close> of every function that uses it.

  \<open>re.findall(r"\b((?:19|20)\d{2})\b", text)\<close>: every match is four characters long and
  the scan resumes after it.
\<close>

definition year_rx :: rx where
  "year_rx = seqs [Bnd, Alt (Lit ''19'') (Lit ''20''), Rep 2 (Some 2) is_digit, Bnd]"

fun year_findall :: "char option \<Rightarrow> string \<Rightarrow> string list" where
  "year_findall p [] = []"
| "year_findall p (c # cs) =
     (if rx_ends year_rx (p, c # cs) \<noteq> []
      then take 4 (c # cs) # year_findall (Some (cs ! 2)) (drop 3 cs)
      else year_findall (Some c) cs)"

definition year_candidates :: "int \<Rightarrow> string \<Rightarrow> int list" where
  "year_candidates cy text =
     (if text = [] then []
      else filter (\<lambda>yi. 1950 \<le> yi \<and> yi \<le> cy + 1) (map int_of_digits (year_findall None text)))"

fun list_max :: "int list \<Rightarrow> int" where
  "list_max [] = 0"
| "list_max [x] = x"
| "list_max (x # y # ys) = max x (list_max (y # ys))"

text \<open>
  \<open>cands.sort(key=lambda t: (t[1], t[0]), reverse=True)\<close>: a reversed sort is the stable
  ascending sort of the reversed list, reversed.
\<close>

definition sort_desc :: "(int \<times> int) list \<Rightarrow> (int \<times> int) list" where
  "sort_desc cands = rev (sort_key (\<lambda>t. (snd t, fst t)) (rev cands))"

definition pick_best_year_scored :: "(int \<times> int) list \<Rightarrow> int option" where
  "pick_best_year_scored cands =
     (if cands = [] then None
      else let sorted = sort_desc cands;
               best_score = snd (hd sorted);
               top = map fst (filter (\<lambda>t. snd t = best_score) sorted)
           in Some (if top \<noteq> [] then list_max top else fst (hd sorted)))"

definition MONTHS :: "string list" where
  "MONTHS = [''january'', ''february'', ''march'', ''april'', ''may'', ''june'',
             ''july'', ''august'', ''september'', ''october'', ''november'', ''december'']"

definition copyright_sign :: char where
  "copyright_sign = char_of (169 :: nat)"

definition score_year_in_line :: "string \<Rightarrow> int \<Rightarrow> int" where
  "score_year_in_line line y =
     (let low = str_lower line in
      if contains ''downloaded by'' low then - 999
      else if contains ''doi'' low \<and> contains ''http'' low then 5
      else
        let score = 10;
            score = fold (\<lambda>m sc. if contains m low \<and> contains (str_of_int y) low
                                  then max sc 95 else sc) MONTHS score;
            score = (if (contains ''vol.'' low \<or> contains ''volume'' low
                         \<or> contains ''no.'' low \<or> contains ''issue'' low)
                        \<and> contains (str_of_int y) low
                     then max score 85 else score);
            score = (if (contains ''copyright'' low \<or> contains [copyright_sign] low)
                        \<and> contains (str_of_int y) low
                     then max score 80 else score)
        in score)"


text \<open>
  Reading a PDF: \<open>PdfReader(path)\<close> raises or gives the pages; \<open>extract_text()\<close> of a
  page raises (the page is skipped), returns \<open>None\<close> (read as the empty string) or
  returns its text.
\<close>

datatype exn = Exn string string

datatype page_read = ExtractRaises | ExtractNone | ExtractText string

type_synonym pdf_reader = "exn + page_read list"

definition newline :: char where
  "newline = char_of (10 :: nat)"

definition pages_text :: "page_read list \<Rightarrow> nat \<Rightarrow> string" where
  "pages_text ps pages =
     str_join [newline]
       (concat (map (\<lambda>p. case p of ExtractRaises \<Rightarrow> [] | ExtractNone \<Rightarrow> [[]] | ExtractText t \<Rightarrow> [t])
                    (take pages ps)))"

definition year_pool :: "int \<Rightarrow> string \<Rightarrow> (int \<times> int) list" where
  "year_pool cy text =
     concat (map (\<lambda>line. map (\<lambda>y. (y, score_year_in_line line y)) (year_candidates cy line))
                 (filter (\<lambda>line. line \<noteq> []) (map str_strip (splitlines text))))"

definition best_update :: "int \<times> int \<Rightarrow> int \<times> int \<Rightarrow> int \<times> int" where
  "best_update best t =
     (if snd t > snd best \<or> (snd t = snd best \<and> fst t > fst best) then t else best)"

definition scan_best :: "(int \<times> int) list \<Rightarrow> int \<times> int" where
  "scan_best pool = foldl best_update (0, - (10 ^ 9)) pool"

definition fallback_pick :: "(int \<times> int) list \<Rightarrow> int option" where
  "fallback_pick pool = (let best = scan_best pool in if snd best > 0 then Some (fst best) else None)"

definition fallback_year_from_pdf_first_pages :: "int \<Rightarrow> pdf_reader \<Rightarrow> nat \<Rightarrow> exn + int option" where
  "fallback_year_from_pdf_first_pages cy reader pages =
     (case reader of
        Inl e \<Rightarrow> Inl e
      | Inr ps \<Rightarrow>
          let text = pages_text ps pages in
          if str_strip text = [] then Inr None else Inr (fallback_pick (year_pool cy text)))"

section \<open>First-page fallback: noise lines, titles, author blocks\<close>

definition has_digit :: "string \<Rightarrow> bool" where
  "has_digit s = (rx_search (Cls is_digit) s \<noteq> None)"

definition section_start_rx :: rx where
  "section_start_rx =
     seqs [Bol, alts [Lit ''abstract'', Seq (Lit ''keyword'') (Opt (Lit ''s'')), Lit ''key words''], Bnd]"

definition section_inline_rx :: rx where
  "section_inline_rx =
     seqs [Bnd, alts [Lit ''abstract'', Seq (Lit ''keyword'') (Opt (Lit ''s''))], Bnd,
           Rep 0 None is_space, Cls (\<lambda>c. c \<in> set '':,-'')]"

definition postal_eu_rx :: rx where
  "postal_eu_rx = seqs [Bnd, Rep 3 (Some 3) is_digit, Opt (Cls is_space), Rep 2 (Some 2) is_digit, Bnd]"

definition postal_us_rx :: rx where
  "postal_us_rx =
     seqs [Bnd, Rep 5 (Some 5) is_digit, Opt (Seq (Lit ''-'') (Rep 4 (Some 4) is_digit)), Bnd]"

definition street_rx :: rx where
  "street_rx = seqs [Bnd, Rep 1 (Some 5) is_digit, Rep 1 None is_space, Rep 2 None is_letter_az, Bnd]"

definition affiliation_words :: "string list" where
  "affiliation_words =
     [''university'', ''department'', ''faculty'', ''institute'', ''laboratory'', ''centre'', ''center'']"

definition country_words :: "string list" where
  "country_words =
     [''republic'', ''usa'', ''u.s.'', ''uk'', ''germany'', ''france'', ''italy'', ''spain'', ''china'',
      ''japan'', ''canada'', ''australia'', ''turkey'', ''t'' @ [char_of (252 :: nat)] @ ''rkiye'', ''poland'']"

text \<open>
  \<open>_looks_like_noise_line\<close> is a chain of \<open>if ...: return True\<close> ending in
  \<open>return False\<close>: the disjunction of its tests, in the source's order.
\<close>

definition looks_like_noise_line :: "string \<Rightarrow> bool" where
  "looks_like_noise_line s0 =
     (let s = norm_spaces s0; low = str_strip (str_lower s) in
      s = []
      \<or> (contains ''http'' low \<or> contains ''doi'' low)
      \<or> (contains ''licensed under'' low \<or> contains ''creativecommons'' low)
      \<or> (contains ''copyright'' low \<or> contains ''rights reserved'' low)
      \<or> (contains ''proceedings'' low \<or> contains ''edited by'' low)
      \<or> contains ''peer reviewed'' low
      \<or> contains ''author:'' low
      \<or> (prefix ''programming language'' low \<or> prefix ''nature of problem'' low)
      \<or> contains ''these authors contributed equally'' low
      \<or> rx_match section_start_rx low
      \<or> (rx_search section_inline_rx low \<noteq> None \<and> str_find ''abstract'' low < 30)
      \<or> contains ''@'' s
      \<or> (rx_search postal_eu_rx s \<noteq> None \<or> rx_search postal_us_rx s \<noteq> None)
      \<or> (rx_search street_rx s \<noteq> None \<and> contains '','' s)
      \<or> (count_list s CHR '','' \<ge> 3 \<and> length (str_split s) > 8)
      \<or> ((\<exists>k \<in> set affiliation_words. contains k low)
          \<and> contains '','' s
          \<and> (has_digit s \<or> (\<exists>c \<in> set country_words. contains c low))))"

definition is_section_label_line :: "string \<Rightarrow> string \<Rightarrow> bool" where
  "is_section_label_line line label =
     (let low = str_strip (str_lower line) in
      if low = [] then False
      else if rx_match (seqs [Bol, Lit label, Bnd]) low then True
      else (case rx_search (seqs [Bnd, Lit label, Bnd, Rep 0 None is_space,
                                  Cls (\<lambda>c. c \<in> set '':,-'')]) low of
              None \<Rightarrow> False
            | Some start \<Rightarrow> start < 30))"

definition is_good_title :: "string \<Rightarrow> bool" where
  "is_good_title s0 =
     (let s = norm_spaces s0; low = str_lower s in
      if s = [] then False
      else if looks_like_noise_line s then False
      else if contains ''cfd with opensource software'' low then False
      else if is_section_label_line s ''abstract'' \<or> is_section_label_line s ''keywords''
              \<or> is_section_label_line s ''key words'' then False
      else if count_list s CHR '','' \<ge> 3 then False
      else if length (str_split s) > 35 \<or> length s > 220 then False
      else True)"


text \<open>
  \<open>pdf_first_pages_text_lines\<close>: the normalised, non-empty lines of the first pages.
\<close>

definition pdf_first_pages_text_lines :: "pdf_reader \<Rightarrow> nat \<Rightarrow> exn + string list" where
  "pdf_first_pages_text_lines reader pages =
     (case reader of
        Inl e \<Rightarrow> Inl e
      | Inr ps \<Rightarrow>
          Inr (filter (\<lambda>ln. ln \<noteq> []) (map norm_spaces (splitlines (pages_text ps pages)))))"

text \<open>\<open>re.search(r"\.\s+in\s+", s, flags=re.IGNORECASE)\<close>\<close>

definition dot_in_rx :: rx where
  "dot_in_rx =
     seqs [Lit ''.'', Rep 1 None is_space, Cls (\<lambda>c. c \<in> set ''iI''), Cls (\<lambda>c. c \<in> set ''nN''),
           Rep 1 None is_space]"

fun extract_title_from_cite_as :: "string list \<Rightarrow> string option" where
  "extract_title_from_cite_as [] = None"
| "extract_title_from_cite_as (ln # lns) =
     (let low = str_lower ln in
      if \<not> contains ''cite as:'' low then extract_title_from_cite_as lns
      else
        let s = str_strip (last (split_once '':'' ln));
            s2 = (case rx_search dot_in_rx s of
                    Some start \<Rightarrow> str_strip (take start s)
                  | None \<Rightarrow> s);
            s2 = (if contains ''.:'' s2 then str_strip (last (split_once ''.:'' s2)) else s2);
            s2 = str_strip_chars '' .;-'' s2
        in if length (str_split s2) \<ge> 4 \<and> \<not> looks_like_noise_line s2 then Some s2
           else extract_title_from_cite_as lns)"

definition title_score :: "string \<Rightarrow> int" where
  "title_score s0 =
     (let s = norm_spaces s0 in
      if s = [] then - (10 ^ 9)
      else
        let low = str_lower s in
        if looks_like_noise_line s then - (10 ^ 6)
        else
          let n_words = length (str_split s) in
          if n_words < 4 then - 1000
          else
            let score = int (min (length s) 200) + 20 * int (min n_words 20);
                letters = filter is_letter_az s;
                score = (if letters \<noteq> [] \<and> map upper_az_chr letters = letters
                         then score - 200 else score);
                score = (if contains ''cfd with opensource software'' low then score - 500 else score);
                score = (if contains '':'' s then score + 30 else score);
                score = (if contains ''-'' s then score + 15 else score)
            in score)"

text \<open>
  The pre-trim loop of \<open>extract_title_from_pdf_lines\<close>; \<open>n\<close> is the number of lines
  kept so far.
\<close>

fun trim_top :: "nat \<Rightarrow> string list \<Rightarrow> string list" where
  "trim_top n [] = []"
| "trim_top n (l # ls) =
     (let ln = norm_spaces l in
      if ln = [] then trim_top n ls
      else if is_section_label_line ln ''abstract'' \<or> is_section_label_line ln ''keywords''
              \<or> is_section_label_line ln ''key words'' then []
      else if Suc n \<ge> 35 then [ln]
      else ln # trim_top (Suc n) ls)"

definition span_candidates :: "string list \<Rightarrow> (string \<times> int) list" where
  "span_candidates lines =
     concat (map (\<lambda>i.
        if looks_like_noise_line (lines ! i) then []
        else concat (map (\<lambda>span.
          if i + span > length lines then []
          else
            let chunk = norm_spaces (str_join '' '' (take span (drop i lines)));
                low = str_lower chunk;
                n_words = length (str_split chunk)
            in if (\<exists>x \<in> set [''author:'', ''peer reviewed by:'', ''licensed under'', ''cite as:''].
                     contains x low) then []
               else if is_section_label_line chunk ''abstract''
                       \<or> is_section_label_line chunk ''keywords'' then []
               else if n_words < 4 \<or> n_words > 35 then []
               else if length chunk > 220 then []
               else [(chunk, title_score chunk)]) [1, 2, 3])) [0..<length lines])"

definition best_span :: "string option \<times> int \<Rightarrow> string \<times> int \<Rightarrow> string option \<times> int" where
  "best_span best t = (if snd t > snd best then (Some (fst t), snd t) else best)"

definition extract_title_from_pdf_lines :: "string list \<Rightarrow> string option" where
  "extract_title_from_pdf_lines lines0 =
     (case extract_title_from_cite_as lines0 of
        Some t \<Rightarrow> Some t
      | None \<Rightarrow>
          let lines = trim_top 0 (take 80 lines0) in
          if lines = [] then None
          else fst (foldl best_span (None, - (10 ^ 9)) (span_candidates lines)))"

definition norm_person :: "string \<Rightarrow> string" where
  "norm_person s0 =
     (let s = str_strip (str_lower s0);
          s = map (\<lambda>c. if is_lower_az c \<or> is_space c \<or> c \<in> set ''.-'' \<or> c = CHR 0x27
                        then c else CHR '' '') s
      in norm_spaces s)"

text \<open>
  The collecting loop of \<open>extract_block_after_label\<close>; \<open>n\<close> is the number of lines
  collected so far.
\<close>

fun collect_block :: "nat \<Rightarrow> string list \<Rightarrow> string list" where
  "collect_block n [] = []"
| "collect_block n (l # ls) =
     (let ln = str_strip l; low = str_lower ln in
      if ln = [] then []
      else if (\<exists>k \<in> set [''peer reviewed by'', ''licensed under'', ''cite as:'',
                            ''cfd with opensource software'']. contains k low) then []
      else if suffix '':'' low \<and> length low < 40 then []
      else if Suc n \<ge> 12 then [norm_spaces ln]
      else norm_spaces ln # collect_block (Suc n) ls)"

definition is_label_line :: "string \<Rightarrow> string \<Rightarrow> bool" where
  "is_label_line label_low ln =
     (prefix label_low (str_strip (str_lower ln))
      \<or> str_strip (str_lower ln) = str_strip_chars '':'' label_low)"

definition extract_block_after_label :: "string list \<Rightarrow> string \<Rightarrow> string list" where
  "extract_block_after_label lines label =
     (let label_low = str_lower label in
      case dropWhile (\<lambda>ln. \<not> is_label_line label_low ln) lines of
        [] \<Rightarrow> []
      | _ # rest \<Rightarrow> collect_block 0 rest)"

definition looks_like_name :: "string \<Rightarrow> bool" where
  "looks_like_name ln =
     (\<not> looks_like_noise_line ln
      \<and> \<not> has_digit ln
      \<and> \<not> contains ''university'' (str_lower ln)
      \<and> \<not> contains ''@'' ln
      \<and> 1 \<le> length (str_split ln) \<and> length (str_split ln) \<le> 5
      \<and> \<not> length (filter is_letter_az ln) < 4)"

fun dedup_person :: "string set \<Rightarrow> string list \<Rightarrow> string list" where
  "dedup_person seen [] = []"
| "dedup_person seen (n # ns) =
     (let k = norm_person n in
      if k \<noteq> [] \<and> k \<notin> seen then n # dedup_person (insert k seen) ns
      else dedup_person seen ns)"

definition filter_name_lines :: "string list \<Rightarrow> string list" where
  "filter_name_lines lines = dedup_person {} (filter looks_like_name lines)"

definition fallback_authors_from_lines :: "string list \<Rightarrow> string list option" where
  "fallback_authors_from_lines lines =
     (let author_block = extract_block_after_label lines ''author:'';
          authors = filter_name_lines author_block in
      if authors = [] then None
      else
        let peer_block = extract_block_after_label lines ''peer reviewed by:'';
            peers = set (map norm_person (filter_name_lines peer_block));
            cleaned = filter (\<lambda>a. norm_person a \<notin> peers) authors
        in Some (if cleaned \<noteq> [] then cleaned else authors))"

definition fallback_authors_from_pdf :: "pdf_reader \<Rightarrow> exn + string list option" where
  "fallback_authors_from_pdf reader =
     (case pdf_first_pages_text_lines reader 1 of
        Inl e \<Rightarrow> Inl e
      | Inr lines \<Rightarrow> Inr (fallback_authors_from_lines lines))"


section \<open>The structured header\<close>

text \<open>
  The header returned by the extraction service is consumed through fixed queries of its
  XML tree. \<open>tei_header\<close> holds what each query finds: the concatenated text of an element
  (\<open>itertext\<close>) where the source reads text, \<open>None\<close> where \<open>find\<close> finds no element. A date
  element carries its \<open>when\<close> attribute, when it has one.
\<close>

record tei_date =
  date_when :: "string option"
  date_text :: string

datatype pers_name = PersName "string list" "string option"

record tei_header =
  title_el :: "string option"
  author_els :: "pers_name option list"
  imprint_dates :: "tei_date list"
  header_dates :: "tei_date list"
  monogr_el :: "string option"
  bibl_scopes :: "string list"
  meeting_el :: "string option"
  header_el :: "string option"

definition el_text :: "string option \<Rightarrow> string" where
  "el_text el = (case el of None \<Rightarrow> [] | Some t \<Rightarrow> str_strip (str_join '' '' (str_split t)))"

definition norm_name :: "string \<Rightarrow> string" where
  "norm_name s0 =
     (let s = norm_spaces s0 in
      if s = [] then []
      else if (\<exists>x \<in> set [''university'', ''department'', ''republic'', ''rights'', ''permission'',
                            ''http'', ''www'']. contains x (str_lower s)) then []
      else if has_digit s then []
      else if length (str_split s) > 6 then []
      else s)"

fun author_name :: "pers_name \<Rightarrow> string" where
  "author_name (PersName fns sn) =
     (let forenames = filter (\<lambda>x. x \<noteq> []) (map (\<lambda>x. el_text (Some x)) fns);
          surname = el_text sn
      in norm_name (str_strip (str_join '' '' (forenames @ [surname]))))"

fun dedup_lower :: "string set \<Rightarrow> string list \<Rightarrow> string list" where
  "dedup_lower seen [] = []"
| "dedup_lower seen (a # as) =
     (let k = str_lower a in
      if k \<notin> seen then a # dedup_lower (insert k seen) as else dedup_lower seen as)"

definition extracted_names :: "tei_header \<Rightarrow> string list" where
  "extracted_names hdr =
     filter (\<lambda>name. name \<noteq> [])
       (concat (map (\<lambda>a. case a of None \<Rightarrow> [] | Some pers \<Rightarrow> [author_name pers]) (author_els hdr)))"

definition header_authors :: "tei_header \<Rightarrow> string list" where
  "header_authors hdr = dedup_lower {} (extracted_names hdr)"

text \<open>
  \<open>int(when[:4])\<close> is reached when \<open>when[:4].isdigit()\<close> holds; \<open>isdigit\<close> accepts the
  superscript digits, on which \<open>int\<close> raises \<open>ValueError\<close>.
\<close>

definition when_year :: "string option \<Rightarrow> exn + int option" where
  "when_year w =
     (let when = str_strip (case w of None \<Rightarrow> [] | Some x \<Rightarrow> x) in
      if length when \<ge> 4 \<and> list_all py_isdigit (take 4 when) then
        (if list_all is_digit (take 4 when) then Inr (Some (int_of_digits (take 4 when)))
         else Inl (Exn ''ValueError''
                     (''invalid literal for int() with base 10: '' @ [CHR 0x27] @ take 4 when @ [CHR 0x27])))
      else Inr None)"

definition date_scores :: "int \<Rightarrow> int \<Rightarrow> int \<Rightarrow> tei_date \<Rightarrow> exn + (int \<times> int) list" where
  "date_scores cy when_score text_score d =
     (case when_year (date_when d) of
        Inl e \<Rightarrow> Inl e
      | Inr wy \<Rightarrow>
          Inr ((case wy of None \<Rightarrow> [] | Some y \<Rightarrow> [(y, when_score)])
               @ map (\<lambda>y. (y, text_score)) (year_candidates cy (el_text (Some (date_text d))))))"

fun collect_scores ::
  "(tei_date \<Rightarrow> exn + (int \<times> int) list) \<Rightarrow> tei_date list \<Rightarrow> exn + (int \<times> int) list" where
  "collect_scores f [] = Inr []"
| "collect_scores f (d # ds) =
     (case f d of
        Inl e \<Rightarrow> Inl e
      | Inr xs \<Rightarrow> (case collect_scores f ds of Inl e \<Rightarrow> Inl e | Inr ys \<Rightarrow> Inr (xs @ ys)))"

definition text_scores :: "int \<Rightarrow> int \<Rightarrow> string option \<Rightarrow> (int \<times> int) list" where
  "text_scores cy score el =
     (case el of None \<Rightarrow> [] | Some t \<Rightarrow> map (\<lambda>y. (y, score)) (year_candidates cy (el_text (Some t))))"

definition header_scored :: "int \<Rightarrow> tei_header \<Rightarrow> exn + (int \<times> int) list" where
  "header_scored cy hdr =
     (case collect_scores (date_scores cy 100 95) (imprint_dates hdr) of
        Inl e \<Rightarrow> Inl e
      | Inr a \<Rightarrow>
          (case collect_scores (date_scores cy 90 85) (header_dates hdr) of
             Inl e \<Rightarrow> Inl e
           | Inr b \<Rightarrow>
               Inr (a @ b
                    @ text_scores cy 75 (monogr_el hdr)
                    @ concat (map (\<lambda>bs. text_scores cy 70 (Some bs)) (bibl_scopes hdr))
                    @ text_scores cy 40 (meeting_el hdr)
                    @ text_scores cy 20 (header_el hdr))))"

definition parse_title_authors_year_from_header_tei ::
  "int \<Rightarrow> tei_header \<Rightarrow> exn + (string \<times> string list \<times> int option)" where
  "parse_title_authors_year_from_header_tei cy hdr =
     (case header_scored cy hdr of
        Inl e \<Rightarrow> Inl e
      | Inr scored \<Rightarrow> Inr (el_text (title_el hdr), header_authors hdr, pick_best_year_scored scored))"

section \<open>The pipeline\<close>

text \<open>
  The collaborators of \<open>parse_pdf\<close> for one document: the header obtained from the
  service and parsed (or the exception of the request or of the XML parser), and the
  result of opening the PDF for each of the three reads of its text.
\<close>

record pdf_env =
  grobid_header :: "exn + tei_header"
  reader_year :: pdf_reader
  reader_title :: pdf_reader
  reader_authors :: pdf_reader

record doc_record =
  file_path :: string
  file_name :: string
  title :: string
  authors :: "string list"
  year :: "int option"
  error :: "string option"

fun error_text :: "exn \<Rightarrow> string" where
  "error_text (Exn name msg) = name @ '': '' @ msg"

definition basename :: "string \<Rightarrow> string" where
  "basename p = rev (takeWhile (\<lambda>c. c \<noteq> CHR ''/'') (rev p))"

definition merge_year :: "int \<Rightarrow> pdf_env \<Rightarrow> doc_record \<Rightarrow> exn + doc_record" where
  "merge_year cy env r =
     (if year r = None then
        (case fallback_year_from_pdf_first_pages cy (reader_year env) 2 of
           Inl e \<Rightarrow> Inl e
         | Inr fy \<Rightarrow> Inr (case fy of None \<Rightarrow> r | Some y \<Rightarrow> r\<lparr>year := Some y\<rparr>))
      else Inr r)"

definition merge_title :: "string \<Rightarrow> string option \<Rightarrow> string" where
  "merge_title structured pdf_title =
     (case pdf_title of
        None \<Rightarrow> structured
      | Some t \<Rightarrow> if t \<noteq> [] \<and> \<not> is_good_title structured \<and> is_good_title t then t else structured)"

definition merge_authors :: "string list \<Rightarrow> string list option \<Rightarrow> string list" where
  "merge_authors structured pdf_authors =
     (case pdf_authors of
        None \<Rightarrow> structured
      | Some as \<Rightarrow> if as \<noteq> [] then as else structured)"

text \<open>
  \<open>parse_pdf\<close>: the body of the \<open>try\<close> updates the record step by step; an exception at
  any step leaves the record as it is then, with the \<open>error\<close> field added.
\<close>

definition with_error :: "doc_record \<Rightarrow> exn \<Rightarrow> doc_record" where
  "with_error r e = r\<lparr>error := Some (error_text e)\<rparr>"

definition initial_record :: "string \<Rightarrow> doc_record" where
  "initial_record pdf_path =
     \<lparr>file_path = pdf_path, file_name = basename pdf_path, title = [], authors = [],
      year = None, error = None\<rparr>"

definition parse_pdf :: "int \<Rightarrow> pdf_env \<Rightarrow> string \<Rightarrow> doc_record" where
  "parse_pdf cy env pdf_path =
     (let r0 = initial_record pdf_path in
      case grobid_header env of
        Inl e \<Rightarrow> with_error r0 e
      | Inr hdr \<Rightarrow>
          (case parse_title_authors_year_from_header_tei cy hdr of
             Inl e \<Rightarrow> with_error r0 e
           | Inr (t, a, y) \<Rightarrow>
               let r1 = r0\<lparr>title := t, authors := a, year := y\<rparr> in
               (case merge_year cy env r1 of
                  Inl e \<Rightarrow> with_error r1 e
                | Inr r2 \<Rightarrow>
                    (case pdf_first_pages_text_lines (reader_title env) 1 of
                       Inl e \<Rightarrow> with_error r2 e
                     | Inr lines1 \<Rightarrow>
                         let r3 = r2\<lparr>title := merge_title (title r2) (extract_title_from_pdf_lines lines1)\<rparr> in
                         (case fallback_authors_from_pdf (reader_authors env) of
                            Inl e \<Rightarrow> with_error r3 e
                          | Inr pdf_authors \<Rightarrow> r3\<lparr>authors := merge_authors (authors r3) pdf_authors\<rparr>)))))"

text \<open>
  \<open>process_root\<close>: one record per PDF found under the root, in the order of the sorted
  paths; \<open>world\<close> gives the collaborators' answers for each path.
\<close>

record root_output =
  root_path :: string
  pdf_count :: nat
  pdfs :: "doc_record list"

definition process_root :: "int \<Rightarrow> (string \<Rightarrow> pdf_env) \<Rightarrow> string \<Rightarrow> string list \<Rightarrow> root_output" where
  "process_root cy world root found =
     (let records = map (\<lambda>p. parse_pdf cy (world p) p) found in
      \<lparr>root_path = root, pdf_count = length found, pdfs = records\<rparr>)"


section \<open>Citation keys\<close>

text \<open>
  \<open>_fold_ascii\<close> maps each character through its table. The entries for code points
  above 255 (g with breve, dotless i, dotted capital I, s with cedilla) cannot apply to
  the strings covered here and are left out.
\<close>

definition fold_table :: "(nat \<times> string) list" where
  "fold_table =
     [(228, ''a''), (196, ''a''), (246, ''o''), (214, ''o''), (252, ''u''), (220, ''u''),
      (223, ''ss''),
      (231, ''c''), (199, ''c''),
      (233, ''e''), (232, ''e''), (234, ''e''), (235, ''e''),
      (225, ''a''), (224, ''a''), (226, ''a''), (227, ''a''),
      (243, ''o''), (242, ''o''), (244, ''o''), (245, ''o''),
      (250, ''u''), (249, ''u''), (251, ''u''),
      (241, ''n'')]"

definition fold_ascii :: "string \<Rightarrow> string" where
  "fold_ascii s =
     concat (map (\<lambda>ch. case map_of fold_table (code ch) of None \<Rightarrow> [ch] | Some r \<Rightarrow> r) s)"

text \<open>
  \<open>re.sub(r"[^a-z0-9]+", "", s)\<close> deletes every character outside the class, which
  is \<open>filter\<close>; likewise \<open>re.sub(r"[^\w]+", "", s)\<close>.
\<close>

definition normalize_key_token :: "string \<Rightarrow> string" where
  "normalize_key_token s = filter (\<lambda>c. is_lower_az c \<or> is_digit c) (str_lower (fold_ascii s))"

definition STOPWORDS :: "string list" where
  "STOPWORDS =
     [''a'', ''an'', ''and'', ''as'', ''at'', ''by'', ''for'', ''from'', ''in'', ''into'', ''of'', ''on'',
      ''or'', ''the'', ''to'', ''with'', ''without'', ''via'', ''using'']"

text \<open>
  \<open>re.split(r"\s+", s)\<close>: the pieces between the maximal runs of whitespace, empty
  pieces at the ends included.
\<close>

function re_split_ws :: "string \<Rightarrow> string list" where
  "re_split_ws [] = [[]]"
| "re_split_ws (c # cs) =
     (if is_space c then [] # re_split_ws (dropWhile is_space cs)
      else (case re_split_ws cs of
              [] \<Rightarrow> [[c]]
            | w # ws \<Rightarrow> (c # w) # ws))"
  by pat_completeness auto
termination
proof (relation "measure length")
  show "wf (measure length)" by simp
next
  fix c :: char and cs :: string
  have "length (dropWhile is_space cs) \<le> length cs"
    by (rule length_dropWhile_le)
  then show "(dropWhile is_space cs, c # cs) \<in> measure length"
    by simp
next
  fix c :: char and cs :: string
  show "(cs, c # cs) \<in> measure length"
    by simp
qed

fun first_significant :: "string list \<Rightarrow> string" where
  "first_significant [] = ''work''"
| "first_significant (w # ws) =
     (let ww = filter is_word (str_lower (fold_ascii w)) in
      if ww \<noteq> [] \<and> ww \<notin> set STOPWORDS then ww else first_significant ws)"

definition first_significant_title_word :: "string \<Rightarrow> string" where
  "first_significant_title_word t = first_significant (re_split_ws (str_strip t))"

definition last_name_from_author :: "string \<Rightarrow> string" where
  "last_name_from_author author =
     (let a = str_strip author in
      if a = [] then ''anon''
      else if contains '','' a then normalize_key_token (hd (split_once '','' a))
      else let parts = re_split_ws a in normalize_key_token (if parts \<noteq> [] then last parts else a))"

text \<open>
  The records read from the parsed file: the title, the author list and the year, which in
  JSON is an integer, a truth value (an \<open>int\<close> for \<open>isinstance\<close>) or anything else.
\<close>

datatype json_year = JInt int | JBool bool | JOther

record parsed_rec =
  p_title :: string
  p_authors :: "string list"
  p_year :: json_year

fun year_token :: "json_year \<Rightarrow> string" where
  "year_token (JInt i) = str_of_int i"
| "year_token (JBool b) = (if b then ''True'' else ''False'')"
| "year_token JOther = ''nodate''"

definition base_key_of :: "parsed_rec \<Rightarrow> string" where
  "base_key_of r =
     (let ttl = str_strip (p_title r);
          first_author = (case p_authors r of [] \<Rightarrow> [] | a # _ \<Rightarrow> a);
          base_key = (let n = last_name_from_author first_author in if n \<noteq> [] then n else ''anon'');
          y = year_token (p_year r);
          w = first_significant_title_word ttl;
          key = normalize_key_token (base_key @ y @ w)
      in if key = [] then ''ref'' @ y else key)"

text \<open>
  \<open>make_bibtex_record\<close>, as far as the citation key goes: the key of the record and the
  updated \<open>used_keys\<close>. The entry type, the fields and the rendered text do not enter the
  key and are not modelled.
\<close>

definition make_bibtex_record :: "parsed_rec \<Rightarrow> (string \<rightharpoonup> nat) \<Rightarrow> string \<times> (string \<rightharpoonup> nat)" where
  "make_bibtex_record r used_keys =
     (let key = base_key_of r;
          n = (case used_keys key of None \<Rightarrow> 0 | Some k \<Rightarrow> k);
          used_keys' = used_keys(key \<mapsto> n + 1)
      in (if n > 0 then key @ str_of_nat (n + 1) else key, used_keys'))"

text \<open>The loop of \<open>process_root\<close> in \<open>make_bibtex.py\<close>: the keys of a batch, in order.\<close>

fun bib_records :: "(string \<rightharpoonup> nat) \<Rightarrow> parsed_rec list \<Rightarrow> string list" where
  "bib_records used_keys [] = []"
| "bib_records used_keys (r # rs) =
     (case make_bibtex_record r used_keys of
        (key, used_keys') \<Rightarrow> key # bib_records used_keys' rs)"

definition batch_keys :: "parsed_rec list \<Rightarrow> string list" where
  "batch_keys records = bib_records Map.empty records"


section \<open>Vocabulary of the properties\<close>

text \<open>The markers that \<open>score_year_in_line\<close> looks for in the lowercased line.\<close>

definition downloaded_marker :: "string \<Rightarrow> bool" where
  "downloaded_marker line = contains ''downloaded by'' (str_lower line)"

definition doi_url_marker :: "string \<Rightarrow> bool" where
  "doi_url_marker line = (contains ''doi'' (str_lower line) \<and> contains ''http'' (str_lower line))"

definition year_in_line :: "string \<Rightarrow> int \<Rightarrow> bool" where
  "year_in_line line y = contains (str_of_int y) (str_lower line)"

definition month_marker :: "string \<Rightarrow> bool" where
  "month_marker line = (\<exists>m \<in> set MONTHS. contains m (str_lower line))"

definition volume_marker :: "string \<Rightarrow> bool" where
  "volume_marker line =
     (contains ''vol.'' (str_lower line) \<or> contains ''volume'' (str_lower line)
      \<or> contains ''no.'' (str_lower line) \<or> contains ''issue'' (str_lower line))"

definition copyright_marker :: "string \<Rightarrow> bool" where
  "copyright_marker line =
     (contains ''copyright'' (str_lower line) \<or> contains [copyright_sign] (str_lower line))"

text \<open>The year range of \<open>_year_candidates\<close>.\<close>

definition in_year_range :: "int \<Rightarrow> int \<Rightarrow> bool" where
  "in_year_range cy y = (1950 \<le> y \<and> y \<le> cy + 1)"

text \<open>The years that the \<open>when\<close> attributes of the header's date elements give.\<close>

definition when_attr_years :: "tei_header \<Rightarrow> int list" where
  "when_attr_years hdr =
     concat (map (\<lambda>d. case when_year (date_when d) of Inr (Some y) \<Rightarrow> [y] | _ \<Rightarrow> [])
                 (imprint_dates hdr @ header_dates hdr))"

text \<open>The name-filtered author block and the peer set of \<open>fallback_authors_from_pdf\<close>.\<close>

definition author_names :: "string list \<Rightarrow> string list" where
  "author_names lines = filter_name_lines (extract_block_after_label lines ''author:'')"

definition peer_set :: "string list \<Rightarrow> string set" where
  "peer_set lines =
     set (map norm_person (filter_name_lines (extract_block_after_label lines ''peer reviewed by:'')))"


section \<open>Year scoring\<close>


lemma fold_months:
  "fold (\<lambda>m sc. if P m \<and> Q then max sc (95::int) else sc) ms sc =
     (if (\<exists>m \<in> set ms. P m) \<and> Q then max sc 95 else sc)"
  by (induction ms arbitrary: sc) auto

text \<open>
  Claim C5. The score of a year in a raw-text line: the sentinel \<open>-999\<close> on a line with the
  "downloaded by" marker; otherwise 5 on a line with both DOI and URL markers; otherwise
  the largest applicable boost: 95 when a month name and the year occur in the line, else 85
  when volume or issue vocabulary and the year occur, else 80 when a copyright marker and
  the year occur, else the base score 10.
\<close>

theorem score_year_in_line_cases:
  "score_year_in_line line y =
     (if downloaded_marker line then - 999
      else if doi_url_marker line then 5
      else if month_marker line \<and> year_in_line line y then 95
      else if volume_marker line \<and> year_in_line line y then 85
      else if copyright_marker line \<and> year_in_line line y then 80
      else 10)"
  unfolding score_year_in_line_def downloaded_marker_def doi_url_marker_def month_marker_def
    year_in_line_def volume_marker_def copyright_marker_def Let_def fold_months
  by simp

theorem score_year_in_line_cases_witness:
  "month_marker ''November 2023'' \<and> year_in_line ''November 2023'' 2023
   \<and> score_year_in_line ''November 2023'' 2023 = 95
   \<and> score_year_in_line ''Downloaded by X in May 2023'' 2023 = - 999
   \<and> score_year_in_line ''Vol. 12, 2023'' 2023 = 85
   \<and> score_year_in_line ''See 2023'' 2023 = 10"
proof -
  have a: "month_marker ''November 2023''" "year_in_line ''November 2023'' 2023"
          "\<not> downloaded_marker ''November 2023''" "\<not> doi_url_marker ''November 2023''"
    by code_simp+
  have b: "downloaded_marker ''Downloaded by X in May 2023''"
    by code_simp
  have c: "volume_marker ''Vol. 12, 2023''" "year_in_line ''Vol. 12, 2023'' 2023"
          "\<not> month_marker ''Vol. 12, 2023''"
          "\<not> downloaded_marker ''Vol. 12, 2023''" "\<not> doi_url_marker ''Vol. 12, 2023''"
    by code_simp+
  have d: "\<not> month_marker ''See 2023''" "\<not> volume_marker ''See 2023''"
          "\<not> copyright_marker ''See 2023''"
          "\<not> downloaded_marker ''See 2023''" "\<not> doi_url_marker ''See 2023''"
    by code_simp+
  show ?thesis
    using score_year_in_line_cases [of "''November 2023''" 2023]
      score_year_in_line_cases [of "''Downloaded by X in May 2023''" 2023]
      score_year_in_line_cases [of "''Vol. 12, 2023''" 2023]
      score_year_in_line_cases [of "''See 2023''" 2023] a b c d
    by simp
qed

subsection \<open>Selection of the best year\<close>

lemma list_max_Max: "xs \<noteq> [] \<Longrightarrow> list_max xs = Max (set xs)"
  by (induction xs rule: list_max.induct) (auto simp: max_def Max_insert)

lemma set_sort_desc: "set (sort_desc cands) = set cands"
  by (simp add: sort_desc_def)

lemma hd_sort_desc:
  assumes "cands \<noteq> []"
  shows "hd (sort_desc cands) \<in> set cands"
    and "\<forall>t \<in> set cands. (snd t, fst t) \<le> (snd (hd (sort_desc cands)), fst (hd (sort_desc cands)))"
proof -
  let ?k = "\<lambda>t::int \<times> int. (snd t, fst t)"
  let ?xs = "sort_key ?k (rev cands)"
  have ne: "?xs \<noteq> []" using assms by (metis length_sort length_rev length_0_conv)
  have hd: "hd (sort_desc cands) = last ?xs"
    using ne by (simp add: sort_desc_def hd_rev)
  have "last ?xs \<in> set ?xs" using ne by (rule last_in_set)
  moreover have "set ?xs = set cands" by simp
  ultimately show "hd (sort_desc cands) \<in> set cands" unfolding hd by blast
  have srt: "sorted (map ?k ?xs)" by (rule sorted_sort_key)
  show "\<forall>t \<in> set cands. ?k t \<le> ?k (hd (sort_desc cands))"
  proof
    fix t assume "t \<in> set cands"
    then have "t \<in> set ?xs" by simp
    then obtain i where i: "i < length ?xs" "?xs ! i = t" unfolding in_set_conv_nth by blast
    have "map ?k ?xs ! i \<le> map ?k ?xs ! (length ?xs - 1)"
      using srt i ne by (intro sorted_nth_mono) auto
    then show "?k t \<le> ?k (hd (sort_desc cands))"
      using i ne by (simp add: hd last_conv_nth)
  qed
qed


lemma pick_best_year_scored_eq:
  assumes "cands \<noteq> []"
  shows "pick_best_year_scored cands = Some (Max {y. (y, Max (snd ` set cands)) \<in> set cands})"
proof -
  let ?h = "hd (sort_desc cands)"
  have hin: "?h \<in> set cands" and hmax: "\<forall>t \<in> set cands. (snd t, fst t) \<le> (snd ?h, fst ?h)"
    using hd_sort_desc[OF assms] by blast+
  have "\<forall>t \<in> set cands. snd t \<le> snd ?h"
    using hmax by (auto simp: less_eq_prod_def)
  then have best: "snd ?h = Max (snd ` set cands)"
    using hin by (intro Max_eqI[symmetric]) auto
  let ?top = "map fst (filter (\<lambda>t. snd t = snd ?h) (sort_desc cands))"
  have topset: "set ?top = {y. (y, snd ?h) \<in> set cands}"
    by (auto simp: set_sort_desc image_iff)
  have "fst ?h \<in> set ?top" unfolding topset using hin by simp
  then have ne: "?top \<noteq> []" by (metis empty_iff list.set(1))
  have "pick_best_year_scored cands = Some (list_max ?top)"
    using assms ne by (simp add: pick_best_year_scored_def Let_def)
  also have "list_max ?top = Max (set ?top)" using ne by (rule list_max_Max)
  also have "Max (set ?top) = Max {y. (y, snd ?h) \<in> set cands}" by (simp only: topset)
  also have "\<dots> = Max {y. (y, Max (snd ` set cands)) \<in> set cands}" by (simp only: best)
  finally show ?thesis .
qed

lemma scan_best_inv:
  "foldl best_update b pool \<in> insert b (set pool) \<and>
   (\<forall>t \<in> insert b (set pool).
      (snd t, fst t) \<le> (snd (foldl best_update b pool), fst (foldl best_update b pool)))"
proof (induction pool arbitrary: b)
  case Nil
  then show ?case by simp
next
  case (Cons t ts)
  have step: "(snd b, fst b) \<le> (snd (best_update b t), fst (best_update b t))"
             "(snd t, fst t) \<le> (snd (best_update b t), fst (best_update b t))"
             "best_update b t = b \<or> best_update b t = t"
    by (auto simp: best_update_def less_eq_prod_def)
  from Cons.IH[of "best_update b t"] step show ?case
    by (auto intro: order_trans)
qed

lemma fallback_pick_eq:
  assumes "pool \<noteq> []"
  shows "fallback_pick pool =
     (if 0 < Max (snd ` set pool) then Some (Max {y. (y, Max (snd ` set pool)) \<in> set pool}) else None)"
proof -
  let ?b = "(0::int, - (10 ^ 9) :: int)"
  let ?r = "scan_best pool"
  let ?M = "Max (snd ` set pool)"
  have rin: "?r \<in> insert ?b (set pool)"
    and rmax: "\<forall>t \<in> set pool. (snd t, fst t) \<le> (snd ?r, fst ?r)"
    using scan_best_inv[of ?b pool] by (auto simp: scan_best_def)
  have Mle: "\<forall>t \<in> set pool. snd t \<le> ?M" by simp
  have Min: "?M \<in> snd ` set pool" using assms by (intro Max_in) auto
  then obtain y0 where y0: "(y0, ?M) \<in> set pool" by force
  have ge: "?M \<le> snd ?r" using rmax y0 by (force simp: less_eq_prod_def)
  show ?thesis
  proof (cases "0 < ?M")
    case True
    then have "?r \<noteq> ?b" using ge by auto
    then have rp: "?r \<in> set pool" using rin by blast
    then have "snd ?r \<le> ?M" using Mle by blast
    then have sr: "snd ?r = ?M" using ge by (rule order.antisym)
    have "\<forall>y. (y, ?M) \<in> set pool \<longrightarrow> y \<le> fst ?r"
      using rmax sr by (force simp: less_eq_prod_def)
    moreover have "(fst ?r, ?M) \<in> set pool" using rp sr by (metis prod.collapse)
    moreover have "finite {y. (y, ?M) \<in> set pool}"
      by (rule finite_subset[of _ "fst ` set pool"]) force+
    ultimately have "Max {y. (y, ?M) \<in> set pool} = fst ?r"
      by (intro Max_eqI) auto
    then show ?thesis using True sr by (simp add: fallback_pick_def Let_def)
  next
    case False
    have "snd ?r \<le> 0"
    proof (cases "?r = ?b")
      case True
      then show ?thesis by (metis snd_conv neg_le_0_iff_le zero_le_numeral zero_le_power)
    next
      case False
      then have "?r \<in> set pool" using rin by blast
      then have "snd ?r \<le> ?M" using Mle by blast
      then show ?thesis using \<open>\<not> 0 < ?M\<close> by linarith
    qed
    then show ?thesis using False by (simp add: fallback_pick_def Let_def)
  qed
qed

lemma fallback_pick_Nil: "fallback_pick [] = None"
  by (simp add: fallback_pick_def scan_best_def)

text \<open>
  Claim C4. For a non-empty pool of (year, score) pairs, the structured-scope selection
  returns the greatest year among the pairs that attain the greatest score of the pool, and
  so does the raw-text selection when that score is positive; the raw-text selection
  returns no year when the greatest score is not positive or the pool is empty.
\<close>

theorem best_year_is_newest_of_top_score:
  "(cands \<noteq> [] \<longrightarrow>
      pick_best_year_scored cands = Some (Max {y. (y, Max (snd ` set cands)) \<in> set cands})
      \<and> fallback_pick cands =
          (if 0 < Max (snd ` set cands)
           then Some (Max {y. (y, Max (snd ` set cands)) \<in> set cands}) else None))
   \<and> fallback_pick [] = None"
  using pick_best_year_scored_eq [of cands] fallback_pick_eq [of cands] fallback_pick_Nil
  by blast

theorem best_year_is_newest_of_top_score_witness:
  "[(2020 :: int, 10 :: int), (2021, 10), (1999, 5)] \<noteq> []
   \<and> pick_best_year_scored [(2020 :: int, 10 :: int), (2021, 10), (1999, 5)]
       = Some (Max {y. (y, Max (snd ` set [(2020 :: int, 10 :: int), (2021, 10), (1999, 5)]))
                        \<in> set [(2020 :: int, 10 :: int), (2021, 10), (1999, 5)]})
   \<and> pick_best_year_scored [(2020 :: int, 10 :: int), (2021, 10), (1999, 5)] = Some 2021
   \<and> fallback_pick [(2020 :: int, 10 :: int), (2021, 10), (1999, 5)] = Some 2021
   \<and> fallback_pick [(2020, - 999), (2021, 0)] = None"
proof -
  have a: "pick_best_year_scored [(2020, 10), (2021, 10), (1999, 5)] = Some 2021"
          "fallback_pick [(2020, 10), (2021, 10), (1999, 5)] = Some 2021"
          "fallback_pick [(2020, - 999), (2021, 0)] = None"
    by code_simp+
  have b: "[(2020 :: int, 10 :: int), (2021, 10), (1999, 5)] \<noteq> []"
    by simp
  show ?thesis
    using best_year_is_newest_of_top_score [of "[(2020, 10), (2021, 10), (1999, 5)]"] a b
    by (simp only: simp_thms)
qed


section \<open>Citation keys: properties\<close>

lemma code_char_of_small: "n < 256 \<Longrightarrow> code (char_of n) = n"
  by (simp add: code_def)

lemma is_digit_char_of: "(k::nat) < 10 \<Longrightarrow> is_digit (char_of (48 + k))"
  by (simp add: is_digit_def code_char_of_small)

lemma str_of_nat_digits: "str_of_nat n \<noteq> [] \<and> (\<forall>c \<in> set (str_of_nat n). is_digit c)"
proof (induction n rule: str_of_nat.induct)
  case (1 n)
  show ?case
  proof (cases "n < 10")
    case True
    then show ?thesis by (subst (1 2) str_of_nat.simps) (simp add: is_digit_char_of)
  next
    case False
    with 1 show ?thesis by (subst (1 2) str_of_nat.simps) (simp add: is_digit_char_of)
  qed
qed

lemma normalize_key_token_append:
  "normalize_key_token (a @ b) = normalize_key_token a @ normalize_key_token b"
  by (simp add: normalize_key_token_def fold_ascii_def str_lower_def)

lemma fold_table_digit: "48 \<le> n \<Longrightarrow> n \<le> 57 \<Longrightarrow> map_of fold_table n = None"
  by (simp add: fold_table_def)

lemma normalize_digit: "is_digit c \<Longrightarrow> normalize_key_token [c] = [c]"
  by (simp add: normalize_key_token_def fold_ascii_def str_lower_def lower_chr_def is_digit_def
      fold_table_digit Let_def)

lemma normalize_key_token_Cons:
  "normalize_key_token (c # s) = normalize_key_token [c] @ normalize_key_token s"
  using normalize_key_token_append[of "[c]" s] by simp

lemma normalize_has_digit:
  "c \<in> set s \<Longrightarrow> is_digit c \<Longrightarrow> normalize_key_token s \<noteq> []"
proof -
  assume "c \<in> set s" "is_digit c"
  then obtain a b where "s = a @ c # b" by (meson split_list)
  then show ?thesis using \<open>is_digit c\<close>
    by (simp add: normalize_key_token_append normalize_key_token_Cons[of c b] normalize_digit)
qed

lemma normalize_year_token: "normalize_key_token (year_token y) \<noteq> []"
proof (cases y)
  case (JInt i)
  obtain c where c: "c \<in> set (str_of_nat (nat \<bar>i\<bar>))" "is_digit c"
    using str_of_nat_digits[of "nat \<bar>i\<bar>"] by (metis last_in_set)
  then have "c \<in> set (str_of_int i)" by (auto simp: str_of_int_def abs_if)
  then show ?thesis using c JInt by (simp add: normalize_has_digit)
next
  case (JBool b)
  have "normalize_key_token ''True'' \<noteq> []" "normalize_key_token ''False'' \<noteq> []"
    by code_simp+
  then show ?thesis using JBool by simp
next
  case JOther
  have "normalize_key_token ''nodate'' \<noteq> []" by code_simp
  then show ?thesis using JOther by simp
qed

lemma year_token_nonempty: "year_token y \<noteq> []"
proof
  assume "year_token y = []"
  then have "normalize_key_token (year_token y) = []"
    by (simp add: normalize_key_token_def fold_ascii_def str_lower_def)
  then show False using normalize_year_token[of y] by simp
qed

lemma first_significant_nonempty: "first_significant ws \<noteq> []"
  by (induction ws) (auto simp: Let_def)

lemma normalized_concat_nonempty: "normalize_key_token (b @ year_token y @ w) \<noteq> []"
  by (simp add: normalize_key_token_append normalize_year_token)

lemma base_key_of_eq:
  "base_key_of r =
     normalize_key_token
       ((let n = last_name_from_author (case p_authors r of [] \<Rightarrow> [] | a # _ \<Rightarrow> a)
         in if n \<noteq> [] then n else ''anon'')
        @ year_token (p_year r) @ first_significant_title_word (str_strip (p_title r)))"
proof -
  have "normalize_key_token
       ((let n = last_name_from_author (case p_authors r of [] \<Rightarrow> [] | a # _ \<Rightarrow> a)
         in if n \<noteq> [] then n else ''anon'')
        @ year_token (p_year r) @ first_significant_title_word (str_strip (p_title r))) \<noteq> []"
    by (rule normalized_concat_nonempty)
  then show ?thesis unfolding base_key_of_def Let_def by (simp only: if_False)
qed

lemma make_bibtex_record_key_nonempty: "fst (make_bibtex_record r used) \<noteq> []"
proof -
  have "base_key_of r \<noteq> []"
    unfolding base_key_of_eq by (rule normalized_concat_nonempty)
  then show ?thesis by (simp add: make_bibtex_record_def Let_def)
qed

lemma upt_0_Suc_shift: "[0..<Suc k] = 0 # map Suc [0..<k]"
  by (metis upt_conv_Cons map_Suc_upt zero_less_Suc)

lemma same_base_keys_gen:
  "\<forall>r \<in> set rs. base_key_of r = b \<Longrightarrow>
   bib_records used rs =
     map (\<lambda>i. if (case used b of None \<Rightarrow> 0 | Some k \<Rightarrow> k) + i = 0 then b
               else b @ str_of_nat ((case used b of None \<Rightarrow> 0 | Some k \<Rightarrow> k) + i + 1))
         [0..<length rs]"
proof (induction rs arbitrary: used)
  case Nil
  then show ?case by simp
next
  case (Cons r rs)
  define n where "n = (case used b of None \<Rightarrow> 0 | Some k \<Rightarrow> k)"
  define used' where "used' = used(b \<mapsto> n + 1)"
  have rb: "base_key_of r = b" and rest: "\<forall>r \<in> set rs. base_key_of r = b"
    using Cons.prems by auto
  have n': "(case used' b of None \<Rightarrow> 0 | Some k \<Rightarrow> k) = n + 1"
    by (simp add: used'_def)
  have ih: "bib_records used' rs =
      map (\<lambda>i. if n + 1 + i = 0 then b else b @ str_of_nat (n + 1 + i + 1)) [0..<length rs]"
    using Cons.IH[OF rest, of used'] unfolding n' .
  have step: "make_bibtex_record r used = (if n > 0 then b @ str_of_nat (n + 1) else b, used')"
    by (simp add: make_bibtex_record_def rb Let_def n_def used'_def)
  have "bib_records used (r # rs) = (if n > 0 then b @ str_of_nat (n + 1) else b) # bib_records used' rs"
    by (simp add: step)
  also have "\<dots> = map (\<lambda>i. if n + i = 0 then b else b @ str_of_nat (n + i + 1)) [0..<length (r # rs)]"
    unfolding ih length_Cons upt_0_Suc_shift by (simp add: comp_def)
  finally show ?case unfolding n_def .
qed

lemma same_base_keys:
  assumes "\<forall>r \<in> set rs. base_key_of r = b"
  shows "batch_keys rs = map (\<lambda>i. if i = 0 then b else b @ str_of_nat (i + 1)) [0..<length rs]"
  using same_base_keys_gen[OF assms, of Map.empty] by (simp add: batch_keys_def)

text \<open>
  Claim C10. Every input record gets a non-empty citation key. Each component of the key
  has a non-empty value (the surname or \<open>anon\<close>, the year or \<open>nodate\<close>, the first
  significant title word or \<open>work\<close>), the base key is the normalised concatenation of the
  three, and that concatenation is never empty.
\<close>

theorem citation_key_nonempty:
  "fst (make_bibtex_record r used) \<noteq> []
   \<and> base_key_of r =
       normalize_key_token
         ((let n = last_name_from_author (case p_authors r of [] \<Rightarrow> [] | a # _ \<Rightarrow> a)
           in if n \<noteq> [] then n else ''anon'')
          @ year_token (p_year r) @ first_significant_title_word (str_strip (p_title r)))
   \<and> (let n = last_name_from_author a in if n \<noteq> [] then n else ''anon'') \<noteq> []
   \<and> year_token y \<noteq> []
   \<and> first_significant_title_word t \<noteq> []
   \<and> normalize_key_token (b @ year_token y @ w) \<noteq> []
   \<and> last_name_from_author [] = ''anon''
   \<and> year_token JOther = ''nodate''
   \<and> first_significant_title_word [] = ''work''"
proof -
  have a: "(let n = last_name_from_author a in if n \<noteq> [] then n else ''anon'') \<noteq> []"
    by (simp add: Let_def)
  have b: "first_significant_title_word t \<noteq> []"
    by (simp add: first_significant_title_word_def first_significant_nonempty)
  have c: "last_name_from_author [] = ''anon''" "first_significant_title_word [] = ''work''"
    by code_simp+
  show ?thesis
    using make_bibtex_record_key_nonempty [of r used] base_key_of_eq [of r] a b c
      year_token_nonempty [of y] normalized_concat_nonempty [of b y w]
    by simp
qed

theorem citation_key_nonempty_witness:
  "fst (make_bibtex_record \<lparr>p_title = [], p_authors = [], p_year = JOther\<rparr> Map.empty) \<noteq> []
   \<and> fst (make_bibtex_record \<lparr>p_title = [], p_authors = [], p_year = JOther\<rparr> Map.empty)
       = ''anonnodatework''
   \<and> fst (make_bibtex_record \<lparr>p_title = ''_ !'', p_authors = [''?''], p_year = JInt (- 5)\<rparr> Map.empty)
       = ''anon5''"
proof -
  have a: "fst (make_bibtex_record \<lparr>p_title = [], p_authors = [], p_year = JOther\<rparr> Map.empty)
       = ''anonnodatework''"
     "fst (make_bibtex_record \<lparr>p_title = ''_ !'', p_authors = [''?''], p_year = JInt (- 5)\<rparr> Map.empty)
       = ''anon5''"
    by code_simp+
  show ?thesis
    using citation_key_nonempty [of "\<lparr>p_title = [], p_authors = [], p_year = JOther\<rparr>" Map.empty] a
    by simp
qed

text \<open>
  Claim C2. The keys of a batch are meant to be pairwise distinct, a repeated base key
  getting the suffixes 2, 3, ... in first-seen order (\<open>same_base_keys\<close> above). The suffixed
  key of a repeated base is not recorded in \<open>used_keys\<close>, so a later record whose base key
  is that very string receives it again: the third record below gets the key of the second.
\<close>

theorem batch_keys_collision:
  "batch_keys
     [\<lparr>p_title = ''Model'', p_authors = [''John Smith''], p_year = JInt 2020\<rparr>,
      \<lparr>p_title = ''Model'', p_authors = [''John Smith''], p_year = JInt 2020\<rparr>,
      \<lparr>p_title = ''Model2'', p_authors = [''John Smith''], p_year = JInt 2020\<rparr>]
   = [''smith2020model'', ''smith2020model2'', ''smith2020model2'']"
  by code_simp


section \<open>The pipeline: properties\<close>

lemma with_error_fields:
  "title (with_error r e) = title r" "authors (with_error r e) = authors r"
  "year (with_error r e) = year r" "error (with_error r e) = Some (error_text e)"
  "file_path (with_error r e) = file_path r" "file_name (with_error r e) = file_name r"
  by (simp_all add: with_error_def)

lemma merge_year_fields:
  assumes "merge_year cy env r = Inr r2"
  shows "title r2 = title r" "authors r2 = authors r" "error r2 = error r"
    "file_path r2 = file_path r" "file_name r2 = file_name r"
  using assms
  by (auto simp: merge_year_def split: if_splits sum.splits option.splits)

lemma merge_year_ok:
  "year r \<noteq> None \<or> (\<exists>ps. reader_year env = Inr ps) \<Longrightarrow> \<exists>r2. merge_year cy env r = Inr r2"
  by (auto simp: merge_year_def fallback_year_from_pdf_first_pages_def Let_def split: sum.splits)

lemma is_good_title_Nil: "\<not> is_good_title []"
  by (simp add: is_good_title_def norm_spaces_def str_strip_def)

lemma merge_title_override:
  "f = Some t \<Longrightarrow> \<not> is_good_title s \<Longrightarrow> is_good_title t \<Longrightarrow> merge_title s f = t"
  using is_good_title_Nil by (auto simp: merge_title_def)

lemma merge_title_keep:
  "\<not> (\<exists>t. f = Some t \<and> \<not> is_good_title s \<and> is_good_title t) \<Longrightarrow> merge_title s f = s"
  by (auto simp: merge_title_def split: option.splits)

lemma parse_pdf_title:
  assumes "grobid_header env = Inr hdr"
    and "parse_title_authors_year_from_header_tei cy hdr = Inr (s, a, y)"
    and "y \<noteq> None \<or> (\<exists>ps. reader_year env = Inr ps)"
    and "pdf_first_pages_text_lines (reader_title env) 1 = Inr lines"
  shows "title (parse_pdf cy env p) = merge_title s (extract_title_from_pdf_lines lines)"
proof -
  let ?r1 = "(initial_record p)\<lparr>title := s, authors := a, year := y\<rparr>"
  obtain r2 where r2: "merge_year cy env ?r1 = Inr r2"
    using merge_year_ok[of ?r1 env cy] assms(3) by auto
  have t2: "title r2 = s" using merge_year_fields(1)[OF r2] by simp
  show ?thesis
    using assms(1,2,4) r2 t2
    by (simp add: parse_pdf_def Let_def with_error_fields split: sum.splits)
qed

text \<open>
  Claim C3. The merged title is the fallback title when the fallback produced a candidate,
  the structured title fails \<open>is_good_title\<close> and the candidate passes it; in every other
  case it is the structured title, the empty one included. For differing titles the merged
  title is the fallback title exactly in the first case. The title of the record that
  \<open>parse_pdf\<close> returns, once the header and the first page have been read, is this merge.
\<close>

theorem merged_title_policy:
  "(f = Some t \<and> \<not> is_good_title s \<and> is_good_title t \<longrightarrow> merge_title s f = t)
   \<and> (\<not> (\<exists>t. f = Some t \<and> \<not> is_good_title s \<and> is_good_title t) \<longrightarrow> merge_title s f = s)
   \<and> (f = Some t \<and> s \<noteq> t \<longrightarrow> (merge_title s f = t \<longleftrightarrow> \<not> is_good_title s \<and> is_good_title t))
   \<and> (grobid_header env = Inr hdr
        \<and> parse_title_authors_year_from_header_tei cy hdr = Inr (s, a, y)
        \<and> (y \<noteq> None \<or> (\<exists>ps. reader_year env = Inr ps))
        \<and> pdf_first_pages_text_lines (reader_title env) 1 = Inr lines
      \<longrightarrow> title (parse_pdf cy env p) = merge_title s (extract_title_from_pdf_lines lines))"
proof -
  have c: "f = Some t \<and> s \<noteq> t \<longrightarrow> (merge_title s f = t \<longleftrightarrow> \<not> is_good_title s \<and> is_good_title t)"
    using is_good_title_Nil by (auto simp: merge_title_def)
  show ?thesis
    using merge_title_override [of f t s] merge_title_keep [of f s] c
      parse_pdf_title [of env hdr cy s a y lines p]
    by blast
qed

subsection \<open>Failures of the collaborators\<close>

lemma parse_pdf_grobid_fails:
  "grobid_header env = Inl e \<Longrightarrow> parse_pdf cy env p = with_error (initial_record p) e"
  by (simp add: parse_pdf_def Let_def)

lemma parse_pdf_header_fails:
  "grobid_header env = Inr hdr \<Longrightarrow> parse_title_authors_year_from_header_tei cy hdr = Inl e \<Longrightarrow>
   parse_pdf cy env p = with_error (initial_record p) e"
  by (simp add: parse_pdf_def Let_def)

lemma parse_pdf_year_read_fails:
  "grobid_header env = Inr hdr \<Longrightarrow>
   parse_title_authors_year_from_header_tei cy hdr = Inr (t, a, None) \<Longrightarrow>
   reader_year env = Inl e \<Longrightarrow>
   parse_pdf cy env p = with_error ((initial_record p)\<lparr>title := t, authors := a, year := None\<rparr>) e"
  by (simp add: parse_pdf_def Let_def merge_year_def fallback_year_from_pdf_first_pages_def)

lemma parse_pdf_title_read_fails:
  "grobid_header env = Inr hdr \<Longrightarrow>
   parse_title_authors_year_from_header_tei cy hdr = Inr (t, a, y) \<Longrightarrow>
   merge_year cy env ((initial_record p)\<lparr>title := t, authors := a, year := y\<rparr>) = Inr r2 \<Longrightarrow>
   reader_title env = Inl e \<Longrightarrow>
   parse_pdf cy env p = with_error r2 e"
  by (simp add: parse_pdf_def Let_def pdf_first_pages_text_lines_def)

lemma parse_pdf_authors_read_fails:
  "grobid_header env = Inr hdr \<Longrightarrow>
   parse_title_authors_year_from_header_tei cy hdr = Inr (t, a, y) \<Longrightarrow>
   merge_year cy env ((initial_record p)\<lparr>title := t, authors := a, year := y\<rparr>) = Inr r2 \<Longrightarrow>
   pdf_first_pages_text_lines (reader_title env) 1 = Inr lines1 \<Longrightarrow>
   reader_authors env = Inl e \<Longrightarrow>
   parse_pdf cy env p
     = with_error (r2\<lparr>title := merge_title (title r2) (extract_title_from_pdf_lines lines1)\<rparr>) e"
  by (simp add: parse_pdf_def Let_def fallback_authors_from_pdf_def pdf_first_pages_text_lines_def)

lemma process_root_records:
  "length (pdfs (process_root cy world root found)) = length found"
  "i < length found \<Longrightarrow>
     pdfs (process_root cy world root found) ! i = parse_pdf cy (world (found ! i)) (found ! i)"
  by (simp_all add: process_root_def Let_def)


theorem merged_title_policy_witness:
  "\<not> is_good_title [] \<and> is_good_title ''A study of things and stuff''
   \<and> merge_title [] (Some ''A study of things and stuff'') = ''A study of things and stuff''
   \<and> merge_title ''A study of things and stuff'' (Some ''Another title of a paper'')
       = ''A study of things and stuff''
   \<and> merge_title [] None = []"
proof -
  have a: "\<not> is_good_title []" "is_good_title ''A study of things and stuff''"
    by code_simp+
  show ?thesis
    using a
      merged_title_policy [of "Some ''A study of things and stuff''" "''A study of things and stuff''" "[]"]
      merged_title_policy [of "Some ''Another title of a paper''" "''Another title of a paper''"
        "''A study of things and stuff''"]
      merged_title_policy [of None "[]" "[]"]
    by simp
qed

text \<open>
  Claim C9. An exception of the extraction service, of the header parse or of a read of
  the PDF text ends the processing of that document only: \<open>parse_pdf\<close> returns the record
  with the fields set before the failing step and the exception's text in \<open>error\<close>. The
  batch has one record per document, each the result of \<open>parse_pdf\<close> on that document.
\<close>

theorem failures_stay_in_their_document:
  "(grobid_header env = Inl e \<longrightarrow> parse_pdf cy env p = with_error (initial_record p) e)
   \<and> (grobid_header env = Inr hdr \<and> parse_title_authors_year_from_header_tei cy hdr = Inl e
       \<longrightarrow> parse_pdf cy env p = with_error (initial_record p) e)
   \<and> (grobid_header env = Inr hdr
       \<and> parse_title_authors_year_from_header_tei cy hdr = Inr (t, a, None)
       \<and> reader_year env = Inl e
       \<longrightarrow> parse_pdf cy env p
            = with_error ((initial_record p)\<lparr>title := t, authors := a, year := None\<rparr>) e)
   \<and> (grobid_header env = Inr hdr
       \<and> parse_title_authors_year_from_header_tei cy hdr = Inr (t, a, y)
       \<and> merge_year cy env ((initial_record p)\<lparr>title := t, authors := a, year := y\<rparr>) = Inr r2
       \<and> reader_title env = Inl e
       \<longrightarrow> parse_pdf cy env p = with_error r2 e)
   \<and> (grobid_header env = Inr hdr
       \<and> parse_title_authors_year_from_header_tei cy hdr = Inr (t, a, y)
       \<and> merge_year cy env ((initial_record p)\<lparr>title := t, authors := a, year := y\<rparr>) = Inr r2
       \<and> pdf_first_pages_text_lines (reader_title env) 1 = Inr lines1
       \<and> reader_authors env = Inl e
       \<longrightarrow> parse_pdf cy env p
            = with_error (r2\<lparr>title := merge_title (title r2) (extract_title_from_pdf_lines lines1)\<rparr>) e)
   \<and> error (with_error r e) = Some (error_text e)
   \<and> title (with_error r e) = title r \<and> authors (with_error r e) = authors r
   \<and> year (with_error r e) = year r
   \<and> length (pdfs (process_root cy world root found)) = length found
   \<and> (i < length found \<longrightarrow>
        pdfs (process_root cy world root found) ! i = parse_pdf cy (world (found ! i)) (found ! i))"
  using parse_pdf_grobid_fails [of env e cy p] parse_pdf_header_fails [of env hdr cy e p]
    parse_pdf_year_read_fails [of env hdr cy t a e p]
    parse_pdf_title_read_fails [of env hdr cy t a y p r2 e]
    parse_pdf_authors_read_fails [of env hdr cy t a y p r2 lines1 e]
    with_error_fields(1-4) [of r e] process_root_records
  by blast


theorem failures_stay_in_their_document_witness:
  "parse_pdf 2026
     \<lparr>grobid_header = Inl (Exn ''URLError'' ''refused''), reader_year = Inr [],
      reader_title = Inr [], reader_authors = Inr []\<rparr> ''/r/a.pdf''
   = \<lparr>file_path = ''/r/a.pdf'', file_name = ''a.pdf'', title = [], authors = [], year = None,
      error = Some ''URLError: refused''\<rparr>
   \<and> pdfs (process_root 2026
        (\<lambda>p. if p = ''/r/a.pdf''
             then \<lparr>grobid_header = Inl (Exn ''URLError'' ''refused''), reader_year = Inr [],
                   reader_title = Inr [], reader_authors = Inr []\<rparr>
             else \<lparr>grobid_header =
                     Inr \<lparr>title_el = Some ''T'', author_els = [], imprint_dates = [],
                          header_dates = [], monogr_el = None, bibl_scopes = [],
                          meeting_el = None, header_el = None\<rparr>,
                   reader_year = Inr [], reader_title = Inr [], reader_authors = Inr []\<rparr>)
        ''/r'' [''/r/a.pdf'', ''/r/b.pdf''])
     = [\<lparr>file_path = ''/r/a.pdf'', file_name = ''a.pdf'', title = [], authors = [], year = None,
         error = Some ''URLError: refused''\<rparr>,
        \<lparr>file_path = ''/r/b.pdf'', file_name = ''b.pdf'', title = ''T'', authors = [], year = None,
         error = None\<rparr>]"
proof -
  let ?bad = "\<lparr>grobid_header = Inl (Exn ''URLError'' ''refused''), reader_year = Inr [],
      reader_title = Inr [], reader_authors = Inr []\<rparr>"
  have g: "grobid_header ?bad = Inl (Exn ''URLError'' ''refused'')"
    by simp
  have a: "parse_pdf 2026 ?bad ''/r/a.pdf'' = with_error (initial_record ''/r/a.pdf'') (Exn ''URLError'' ''refused'')"
    using failures_stay_in_their_document [of ?bad "Exn ''URLError'' ''refused''" 2026 "''/r/a.pdf''"] g
    by blast
  have b: "with_error (initial_record ''/r/a.pdf'') (Exn ''URLError'' ''refused'')
      = \<lparr>file_path = ''/r/a.pdf'', file_name = ''a.pdf'', title = [], authors = [], year = None,
      error = Some ''URLError: refused''\<rparr>"
    by code_simp
  have c: "pdfs (process_root 2026
        (\<lambda>p. if p = ''/r/a.pdf''
             then \<lparr>grobid_header = Inl (Exn ''URLError'' ''refused''), reader_year = Inr [],
                   reader_title = Inr [], reader_authors = Inr []\<rparr>
             else \<lparr>grobid_header =
                     Inr \<lparr>title_el = Some ''T'', author_els = [], imprint_dates = [],
                          header_dates = [], monogr_el = None, bibl_scopes = [],
                          meeting_el = None, header_el = None\<rparr>,
                   reader_year = Inr [], reader_title = Inr [], reader_authors = Inr []\<rparr>)
        ''/r'' [''/r/a.pdf'', ''/r/b.pdf''])
     = [\<lparr>file_path = ''/r/a.pdf'', file_name = ''a.pdf'', title = [], authors = [], year = None,
         error = Some ''URLError: refused''\<rparr>,
        \<lparr>file_path = ''/r/b.pdf'', file_name = ''b.pdf'', title = ''T'', authors = [], year = None,
         error = None\<rparr>]"
    by code_simp
  show ?thesis using a b c by simp
qed


subsection \<open>The range of the year\<close>

lemma year_candidates_range: "y \<in> set (year_candidates cy text) \<Longrightarrow> in_year_range cy y"
  by (auto simp: year_candidates_def in_year_range_def split: if_splits)

lemma list_max_in: "xs \<noteq> [] \<Longrightarrow> list_max xs \<in> set xs"
  by (induction xs rule: list_max.induct) (auto simp: max_def)

lemma pick_best_in_set:
  assumes "pick_best_year_scored c = Some y"
  shows "y \<in> fst ` set c"
proof -
  have ne: "c \<noteq> []" using assms by (auto simp: pick_best_year_scored_def)
  then have sne: "sort_desc c \<noteq> []" using set_sort_desc[of c] by (metis set_empty)
  let ?top = "map fst (filter (\<lambda>t. snd t = snd (hd (sort_desc c))) (sort_desc c))"
  have y: "y = (if ?top \<noteq> [] then list_max ?top else fst (hd (sort_desc c)))"
    using assms ne by (simp add: pick_best_year_scored_def Let_def)
  show ?thesis
  proof (cases "?top = []")
    case True
    then have "y = fst (hd (sort_desc c))" using y by simp
    moreover have "hd (sort_desc c) \<in> set c" using sne set_sort_desc[of c] hd_in_set by blast
    ultimately show ?thesis by blast
  next
    case False
    then have "y \<in> set ?top" using y list_max_in[OF False] by simp
    then show ?thesis using set_sort_desc[of c] by auto
  qed
qed

lemma fallback_pick_in_set:
  assumes "fallback_pick pool = Some y"
  shows "y \<in> fst ` set pool"
proof -
  let ?b = "(0::int, - (10 ^ 9) :: int)"
  have pos: "0 < snd (scan_best pool)" and y: "y = fst (scan_best pool)"
    using assms by (auto simp: fallback_pick_def Let_def split: if_splits)
  have "scan_best pool \<in> insert ?b (set pool)"
    using scan_best_inv[of ?b pool] by (simp add: scan_best_def)
  moreover have "scan_best pool \<noteq> ?b" using pos by auto
  ultimately have "scan_best pool \<in> set pool" by blast
  then show ?thesis using y by blast
qed

lemma year_pool_range: "(y, s) \<in> set (year_pool cy text) \<Longrightarrow> in_year_range cy y"
  by (auto simp: year_pool_def dest: year_candidates_range)

lemma fallback_year_range:
  assumes "fallback_year_from_pdf_first_pages cy reader n = Inr (Some y)"
  shows "in_year_range cy y"
proof -
  obtain tx where "fallback_pick (year_pool cy tx) = Some y"
    using assms
    by (auto simp: fallback_year_from_pdf_first_pages_def Let_def split: sum.splits if_splits)
  then have "y \<in> fst ` set (year_pool cy tx)" by (rule fallback_pick_in_set)
  then show ?thesis using year_pool_range by force
qed

lemma digits_fold_bound:
  "\<forall>c \<in> set s. is_digit c \<Longrightarrow> 0 \<le> a \<Longrightarrow>
   0 \<le> foldl (\<lambda>a c. 10 * a + (int (code c) - 48)) a s
   \<and> foldl (\<lambda>a c. 10 * a + (int (code c) - 48)) a s < (a + 1) * 10 ^ length s"
proof (induction s arbitrary: a)
  case Nil
  then show ?case by simp
next
  case (Cons c s)
  let ?a' = "10 * a + (int (code c) - 48)"
  have d: "0 \<le> int (code c) - 48" "int (code c) - 48 \<le> 9"
    using Cons.prems(1) by (auto simp: is_digit_def Let_def)
  have a': "0 \<le> ?a'" using d Cons.prems(2) by simp
  have ih: "0 \<le> foldl (\<lambda>a c. 10 * a + (int (code c) - 48)) ?a' s"
    "foldl (\<lambda>a c. 10 * a + (int (code c) - 48)) ?a' s < (?a' + 1) * 10 ^ length s"
    using Cons.IH[of ?a'] Cons.prems(1) a' by auto
  have "(?a' + 1) * 10 ^ length s \<le> (10 * (a + 1)) * 10 ^ length s"
    using d by (intro mult_right_mono) auto
  then have lt: "foldl (\<lambda>a c. 10 * a + (int (code c) - 48)) ?a' s < (10 * (a + 1)) * 10 ^ length s"
    using ih(2) by (rule less_le_trans[rotated])
  have eq: "(a + 1) * 10 ^ length (c # s) = (10 * (a + 1)) * 10 ^ length s"
    by simp
  show ?case unfolding foldl_Cons eq using ih(1) lt by blast
qed

lemma when_year_bounds:
  assumes "when_year w = Inr (Some y)"
  shows "0 \<le> y \<and> y \<le> 9999"
proof -
  obtain s where s: "length s \<ge> 4" "list_all is_digit (take 4 s)" "y = int_of_digits (take 4 s)"
    using assms by (auto simp: when_year_def Let_def split: if_splits)
  have "\<forall>c \<in> set (take 4 s). is_digit c" using s(2) by (simp add: list_all_iff)
  from digits_fold_bound[OF this, of 0]
  have b: "0 \<le> int_of_digits (take 4 s)"
    "int_of_digits (take 4 s) < (0 + 1) * 10 ^ length (take 4 s)"
    by (simp_all add: int_of_digits_def)
  have l: "length (take 4 s) = 4" using s(1) by simp
  show ?thesis using b unfolding l s(3) by simp
qed

lemma collect_scores_sound:
  "collect_scores (date_scores cy ws ts) ds = Inr xs \<Longrightarrow> (y, s) \<in> set xs \<Longrightarrow>
   in_year_range cy y \<or> (\<exists>d \<in> set ds. when_year (date_when d) = Inr (Some y))"
proof (induction ds arbitrary: xs)
  case Nil
  then show ?case by simp
next
  case (Cons d ds)
  from Cons.prems(1) obtain a b where
    a: "date_scores cy ws ts d = Inr a" and b: "collect_scores (date_scores cy ws ts) ds = Inr b"
    and xs: "xs = a @ b"
    by (auto split: sum.splits)
  from Cons.prems(2) xs consider "(y, s) \<in> set a" | "(y, s) \<in> set b" by auto
  then show ?case
  proof cases
    case 1
    then show ?thesis using a
      by (auto simp: date_scores_def split: sum.splits option.splits dest: year_candidates_range)
  next
    case 2
    then show ?thesis using Cons.IH[OF b] by auto
  qed
qed

lemma when_case_iff:
  "y \<in> set (case w of Inr (Some y') \<Rightarrow> [y'] | _ \<Rightarrow> []) \<longleftrightarrow> w = Inr (Some y)"
  by (auto split: sum.splits option.splits)

lemma when_attr_years_iff:
  "y \<in> set (when_attr_years hdr) \<longleftrightarrow>
     (\<exists>d \<in> set (imprint_dates hdr @ header_dates hdr). when_year (date_when d) = Inr (Some y))"
  by (auto simp: when_attr_years_def when_case_iff; metis)

lemma text_scores_range: "(y, s) \<in> set (text_scores cy sc el) \<Longrightarrow> in_year_range cy y"
  by (auto simp: text_scores_def split: option.splits dest: year_candidates_range)

lemma header_scored_sound:
  assumes "header_scored cy hdr = Inr sc" and "(y, s) \<in> set sc"
  shows "in_year_range cy y \<or> y \<in> set (when_attr_years hdr)"
proof -
  from assms(1) obtain a b where
    a: "collect_scores (date_scores cy 100 95) (imprint_dates hdr) = Inr a"
    and b: "collect_scores (date_scores cy 90 85) (header_dates hdr) = Inr b"
    and sc: "sc = a @ b @ text_scores cy 75 (monogr_el hdr)
                  @ concat (map (\<lambda>bs. text_scores cy 70 (Some bs)) (bibl_scopes hdr))
                  @ text_scores cy 40 (meeting_el hdr) @ text_scores cy 20 (header_el hdr)"
    by (auto simp: header_scored_def split: sum.splits)
  from assms(2) sc consider "(y, s) \<in> set a" | "(y, s) \<in> set b"
    | el sc' where "(y, s) \<in> set (text_scores cy sc' el)"
    by auto
  then show ?thesis
  proof cases
    case 1
    then show ?thesis using collect_scores_sound[OF a] when_attr_years_iff[of y hdr] by auto
  next
    case 2
    then show ?thesis using collect_scores_sound[OF b] when_attr_years_iff[of y hdr] by auto
  next
    case 3
    then show ?thesis using text_scores_range by blast
  qed
qed

lemma parse_header_year:
  assumes "parse_title_authors_year_from_header_tei cy hdr = Inr (t, a, Some y)"
  shows "in_year_range cy y \<or> y \<in> set (when_attr_years hdr)"
proof -
  obtain sc where sc: "header_scored cy hdr = Inr sc" and p: "pick_best_year_scored sc = Some y"
    using assms by (auto simp: parse_title_authors_year_from_header_tei_def split: sum.splits)
  from pick_best_in_set[OF p] obtain s where "(y, s) \<in> set sc" by auto
  then show ?thesis using header_scored_sound[OF sc] by blast
qed

lemma merge_year_year:
  assumes "merge_year cy env r = Inr r2" and "year r2 = Some y"
  shows "year r = Some y \<or> in_year_range cy y"
  using assms
  by (auto simp: merge_year_def split: if_splits sum.splits option.splits dest: fallback_year_range)


lemma parse_pdf_year:
  assumes "year (parse_pdf cy env p) = Some y"
  shows "in_year_range cy y \<or> (\<exists>hdr. grobid_header env = Inr hdr \<and> y \<in> set (when_attr_years hdr))"
proof (cases "grobid_header env")
  case (Inl e)
  then show ?thesis using assms
    by (simp add: parse_pdf_def Let_def with_error_fields initial_record_def)
next
  case (Inr hdr)
  show ?thesis
  proof (cases "parse_title_authors_year_from_header_tei cy hdr")
    case (Inl e)
    then show ?thesis using assms Inr
      by (simp add: parse_pdf_def Let_def with_error_fields initial_record_def)
  next
    case hp: (Inr res)
    obtain t a y0 where res: "res = (t, a, y0)" by (cases res) auto
    let ?r1 = "(initial_record p)\<lparr>title := t, authors := a, year := y0\<rparr>"
    have y0: "y0 = Some y \<Longrightarrow> ?thesis"
      using parse_header_year[of cy hdr t a y] hp res Inr by auto
    show ?thesis
    proof (cases "merge_year cy env ?r1")
      case (Inl e)
      then have "year (parse_pdf cy env p) = y0"
        using Inr hp res by (simp add: parse_pdf_def Let_def with_error_fields)
      then show ?thesis using assms y0 by simp
    next
      case my: (Inr r2)
      have "year (parse_pdf cy env p) = year r2"
        using Inr hp res my
        by (simp add: parse_pdf_def Let_def with_error_fields split: sum.splits)
      then have "year r2 = Some y" using assms by simp
      from merge_year_year[OF my this] show ?thesis using y0 by auto
    qed
  qed
qed

text \<open>
  Claim C1, amended. Every year that \<open>year_candidates\<close> extracts from a text lies in
  \<open>[1950, cy + 1]\<close>, and so does every year of the raw-text fallback. The year of a record
  returned by \<open>parse_pdf\<close> lies in that range or is the year of a \<open>when\<close> attribute of a
  date element of the header, the number written by the first four characters of the
  attribute, between 0 and 9999.
\<close>

theorem year_in_range_or_from_when_attribute:
  "(\<forall>y \<in> set (year_candidates cy tx). in_year_range cy y)
   \<and> (fallback_year_from_pdf_first_pages cy reader n = Inr (Some y) \<longrightarrow> in_year_range cy y)
   \<and> (year (parse_pdf cy env p) = Some y \<longrightarrow>
        in_year_range cy y
        \<or> (\<exists>hdr. grobid_header env = Inr hdr \<and> y \<in> set (when_attr_years hdr)))
   \<and> (\<forall>y \<in> set (when_attr_years hdr). 0 \<le> y \<and> y \<le> 9999)"
proof -
  have "\<forall>y \<in> set (when_attr_years hdr). 0 \<le> y \<and> y \<le> 9999"
    using when_attr_years_iff when_year_bounds by blast
  then show ?thesis
    using year_candidates_range [of _ cy tx] fallback_year_range [of cy reader n y]
      parse_pdf_year [of cy env p y]
    by blast
qed

theorem year_in_range_or_from_when_attribute_witness:
  "year (parse_pdf 2026
     \<lparr>grobid_header =
        Inr \<lparr>title_el = Some ''T'', author_els = [],
             imprint_dates = [\<lparr>date_when = Some ''2021-05'', date_text = ''May 2019''\<rparr>],
             header_dates = [], monogr_el = None, bibl_scopes = [],
             meeting_el = None, header_el = None\<rparr>,
      reader_year = Inr [], reader_title = Inr [], reader_authors = Inr []\<rparr> ''a.pdf'') = Some 2021
   \<and> in_year_range 2026 2021
   \<and> year_candidates 2026 ''1949 1950 2027 2028 12021'' = [1950, 2027]"
proof -
  let ?env = "\<lparr>grobid_header =
        Inr \<lparr>title_el = Some ''T'', author_els = [],
             imprint_dates = [\<lparr>date_when = Some ''2021-05'', date_text = ''May 2019''\<rparr>],
             header_dates = [], monogr_el = None, bibl_scopes = [],
             meeting_el = None, header_el = None\<rparr>,
      reader_year = Inr [], reader_title = Inr [], reader_authors = Inr []\<rparr>"
  have a: "year (parse_pdf 2026 ?env ''a.pdf'') = Some 2021"
    by code_simp
  have b: "year_candidates 2026 ''1949 1950 2027 2028 12021'' = [1950, 2027]"
    by code_simp
  have c: "in_year_range 2026 2021"
    by (simp add: in_year_range_def)
  have "in_year_range 2026 2021
        \<or> (\<exists>hdr. grobid_header ?env = Inr hdr \<and> 2021 \<in> set (when_attr_years hdr))"
    using year_in_range_or_from_when_attribute [of 2026 "[]" "Inr []" 0 2021 ?env "''a.pdf''"] a
    by blast
  then show ?thesis using a b c by blast
qed

text \<open>
  Claim C1 as stated fails: a \<open>when\<close> attribute is not filtered by the range, so the date
  \<open>1800-01-01\<close> gives the record the year 1800.
\<close>

theorem year_out_of_range_counterexample:
  "year (parse_pdf 2026
     \<lparr>grobid_header =
        Inr \<lparr>title_el = Some ''T'', author_els = [],
             imprint_dates = [\<lparr>date_when = Some ''1800-01-01'', date_text = ''2020''\<rparr>],
             header_dates = [], monogr_el = None, bibl_scopes = [],
             meeting_el = None, header_el = None\<rparr>,
      reader_year = Inr [], reader_title = Inr [], reader_authors = Inr []\<rparr> ''a.pdf'') = Some 1800
   \<and> \<not> in_year_range 2026 1800"
proof -
  have "year (parse_pdf 2026
     \<lparr>grobid_header =
        Inr \<lparr>title_el = Some ''T'', author_els = [],
             imprint_dates = [\<lparr>date_when = Some ''1800-01-01'', date_text = ''2020''\<rparr>],
             header_dates = [], monogr_el = None, bibl_scopes = [],
             meeting_el = None, header_el = None\<rparr>,
      reader_year = Inr [], reader_title = Inr [], reader_authors = Inr []\<rparr> ''a.pdf'') = Some 1800"
    by code_simp
  then show ?thesis by (simp add: in_year_range_def)
qed


section \<open>Authors: properties\<close>

lemma dedup_lower_keys:
  "distinct (map str_lower (dedup_lower seen xs))
   \<and> str_lower ` set (dedup_lower seen xs) \<inter> seen = {}"
proof (induction xs arbitrary: seen)
  case Nil
  then show ?case by simp
next
  case (Cons x xs)
  show ?case
  proof (cases "str_lower x \<in> seen")
    case True
    then show ?thesis using Cons.IH[of seen] by (simp add: Let_def)
  next
    case False
    then show ?thesis using Cons.IH[of "insert (str_lower x) seen"] by (auto simp: Let_def)
  qed
qed

lemma dedup_lower_subseq: "subseq (dedup_lower seen xs) xs"
  by (induction xs arbitrary: seen) (auto simp: Let_def)

lemma dedup_lower_first:
  "a \<in> set (dedup_lower seen xs) \<Longrightarrow> find (\<lambda>b. str_lower b = str_lower a) xs = Some a"
proof (induction xs arbitrary: seen)
  case Nil
  then show ?case by simp
next
  case (Cons x xs)
  show ?case
  proof (cases "str_lower x \<in> seen")
    case True
    then have a: "a \<in> set (dedup_lower seen xs)" using Cons.prems by (simp add: Let_def)
    then have "str_lower a \<notin> seen" using dedup_lower_keys[of seen xs] by blast
    then have "str_lower x \<noteq> str_lower a" using True by auto
    then show ?thesis using Cons.IH[OF a] by simp
  next
    case False
    then have "a = x \<or> a \<in> set (dedup_lower (insert (str_lower x) seen) xs)"
      using Cons.prems by (simp add: Let_def)
    then show ?thesis
    proof
      assume "a = x"
      then show ?thesis by simp
    next
      assume a: "a \<in> set (dedup_lower (insert (str_lower x) seen) xs)"
      then have "str_lower a \<notin> insert (str_lower x) seen"
        using dedup_lower_keys[of "insert (str_lower x) seen" xs] by blast
      then have "str_lower x \<noteq> str_lower a" by auto
      then show ?thesis using Cons.IH[OF a] by simp
    qed
  qed
qed

lemma dedup_person_keys:
  "distinct (map norm_person (dedup_person seen xs))
   \<and> norm_person ` set (dedup_person seen xs) \<inter> seen = {}"
proof (induction xs arbitrary: seen)
  case Nil
  then show ?case by simp
next
  case (Cons x xs)
  show ?case
  proof (cases "norm_person x \<noteq> [] \<and> norm_person x \<notin> seen")
    case False
    then show ?thesis using Cons.IH[of seen] by (auto simp: Let_def)
  next
    case True
    then show ?thesis using Cons.IH[of "insert (norm_person x) seen"] by (auto simp: Let_def)
  qed
qed

lemma dedup_person_subseq: "subseq (dedup_person seen xs) xs"
  by (induction xs arbitrary: seen) (auto simp: Let_def)

lemma dedup_person_first:
  "a \<in> set (dedup_person seen xs) \<Longrightarrow> find (\<lambda>b. norm_person b = norm_person a) xs = Some a"
proof (induction xs arbitrary: seen)
  case Nil
  then show ?case by simp
next
  case (Cons x xs)
  show ?case
  proof (cases "norm_person x \<noteq> [] \<and> norm_person x \<notin> seen")
    case True
    then have "a = x \<or> a \<in> set (dedup_person (insert (norm_person x) seen) xs)"
      using Cons.prems by (simp add: Let_def)
    then show ?thesis
    proof
      assume "a = x"
      then show ?thesis by simp
    next
      assume a: "a \<in> set (dedup_person (insert (norm_person x) seen) xs)"
      then have "norm_person a \<notin> insert (norm_person x) seen"
        using dedup_person_keys[of "insert (norm_person x) seen" xs] by blast
      then have "norm_person x \<noteq> norm_person a" by auto
      then show ?thesis using Cons.IH[OF a] by simp
    qed
  next
    case False
    then have a: "a \<in> set (dedup_person seen xs)" using Cons.prems by (auto simp: Let_def)
    have "norm_person a \<noteq> [] \<and> norm_person a \<notin> seen"
      using a
    proof (induction xs arbitrary: seen)
      case Nil
      then show ?case by simp
    next
      case (Cons z zs)
      then show ?case
        using dedup_person_keys[of "insert (norm_person z) seen" zs]
        by (auto simp: Let_def split: if_splits)
    qed
    then have "norm_person x \<noteq> norm_person a" using False by auto
    then show ?thesis using Cons.IH[OF a] by simp
  qed
qed

lemma norm_person_lower: "str_lower a = str_lower b \<Longrightarrow> norm_person a = norm_person b"
  by (simp add: norm_person_def)

lemma distinct_map_finer:
  assumes "distinct (map f xs)" and "\<And>a b. g a = g b \<Longrightarrow> f a = f b"
  shows "distinct (map g xs)"
proof -
  have d: "distinct xs" and i: "inj_on f (set xs)"
    using assms(1) by (simp_all add: distinct_map)
  have "inj_on g (set xs)"
  proof (rule inj_onI)
    fix a b assume "a \<in> set xs" "b \<in> set xs" "g a = g b"
    then show "a = b" using assms(2)[of a b] i by (simp add: inj_on_def)
  qed
  then show ?thesis using d by (simp add: distinct_map)
qed

lemma header_authors_of_parse:
  "parse_title_authors_year_from_header_tei cy hdr = Inr (t, a, y) \<Longrightarrow> a = header_authors hdr"
  by (auto simp: parse_title_authors_year_from_header_tei_def split: sum.splits)

lemma header_authors_distinct: "distinct (map str_lower (header_authors hdr))"
  using dedup_lower_keys[of "{}" "extracted_names hdr"] by (simp add: header_authors_def)

lemma fallback_authors_cases:
  assumes "fallback_authors_from_lines lines = Some out"
  shows "author_names lines \<noteq> []"
    and "out = (if filter (\<lambda>a. norm_person a \<notin> peer_set lines) (author_names lines) \<noteq> []
                then filter (\<lambda>a. norm_person a \<notin> peer_set lines) (author_names lines)
                else author_names lines)"
  using assms
  by (auto simp: fallback_authors_from_lines_def author_names_def peer_set_def Let_def
      split: if_splits)

lemma fallback_authors_none:
  "author_names lines = [] \<Longrightarrow> fallback_authors_from_lines lines = None"
  by (simp add: fallback_authors_from_lines_def author_names_def Let_def)

lemma author_names_distinct: "distinct (map norm_person (author_names lines))"
  using dedup_person_keys[of "{}"] by (simp add: author_names_def filter_name_lines_def)

lemma author_names_subseq:
  "subseq (author_names lines) (extract_block_after_label lines ''author:'')"
proof -
  have "subseq (author_names lines) (filter looks_like_name (extract_block_after_label lines ''author:''))"
    by (simp add: author_names_def filter_name_lines_def dedup_person_subseq)
  moreover have "subseq (filter looks_like_name (extract_block_after_label lines ''author:''))
      (extract_block_after_label lines ''author:'')"
    by simp
  ultimately show ?thesis by (rule subseq_order.trans)
qed

lemma fallback_authors_out:
  assumes "fallback_authors_from_lines lines = Some out"
  shows "out \<noteq> []"
    and "distinct (map norm_person out)"
    and "subseq out (extract_block_after_label lines ''author:'')"
    and "set out \<subseteq> set (author_names lines)"
proof -
  let ?cl = "filter (\<lambda>a. norm_person a \<notin> peer_set lines) (author_names lines)"
  have out: "out = (if ?cl \<noteq> [] then ?cl else author_names lines)"
    and ne: "author_names lines \<noteq> []"
    using fallback_authors_cases[OF assms] by blast+
  show "out \<noteq> []" using out ne by auto
  show "distinct (map norm_person out)"
    using out author_names_distinct[of lines] by (auto simp: distinct_map_filter)
  have "subseq out (author_names lines)" using out by auto
  then show "subseq out (extract_block_after_label lines ''author:'')"
    using author_names_subseq by (rule subseq_order.trans)
  show "set out \<subseteq> set (author_names lines)" using out by auto
qed

lemma author_names_first:
  "a \<in> set (author_names lines) \<Longrightarrow>
   find (\<lambda>b. norm_person b = norm_person a)
     (filter looks_like_name (extract_block_after_label lines ''author:'')) = Some a"
  unfolding author_names_def filter_name_lines_def by (rule dedup_person_first)

lemma parse_pdf_authors_cases:
  "authors (parse_pdf cy env p) = []
   \<or> (\<exists>hdr. authors (parse_pdf cy env p) = header_authors hdr)
   \<or> (\<exists>lines. fallback_authors_from_lines lines = Some (authors (parse_pdf cy env p)))"
proof (cases "grobid_header env")
  case (Inl e)
  then show ?thesis by (simp add: parse_pdf_def Let_def with_error_fields initial_record_def)
next
  case (Inr hdr)
  show ?thesis
  proof (cases "parse_title_authors_year_from_header_tei cy hdr")
    case (Inl e)
    then show ?thesis using Inr
      by (simp add: parse_pdf_def Let_def with_error_fields initial_record_def)
  next
    case hp: (Inr res)
    obtain t a y0 where res: "res = (t, a, y0)" by (cases res) auto
    have a: "a = header_authors hdr" using header_authors_of_parse hp res by blast
    let ?r1 = "(initial_record p)\<lparr>title := t, authors := a, year := y0\<rparr>"
    show ?thesis
    proof (cases "merge_year cy env ?r1")
      case (Inl e)
      then have "authors (parse_pdf cy env p) = a"
        using Inr hp res by (simp add: parse_pdf_def Let_def with_error_fields)
      then show ?thesis using a by blast
    next
      case my: (Inr r2)
      have a2: "authors r2 = a" using merge_year_fields(2)[OF my] by simp
      show ?thesis
      proof (cases "pdf_first_pages_text_lines (reader_title env) 1")
        case (Inl e)
        then have "authors (parse_pdf cy env p) = a"
          using Inr hp res my a2 by (simp add: parse_pdf_def Let_def with_error_fields)
        then show ?thesis using a by blast
      next
        case tl: (Inr lines1)
        show ?thesis
        proof (cases "fallback_authors_from_pdf (reader_authors env)")
          case (Inl e)
          then have "authors (parse_pdf cy env p) = a"
            using Inr hp res my a2 tl by (simp add: parse_pdf_def Let_def with_error_fields)
          then show ?thesis using a by blast
        next
          case fa: (Inr pa)
          have eq: "authors (parse_pdf cy env p) = merge_authors a pa"
            using Inr hp res my a2 tl fa by (simp add: parse_pdf_def Let_def)
          show ?thesis
          proof (cases "\<exists>out. pa = Some out \<and> out \<noteq> []")
            case True
            then obtain out where out: "pa = Some out" "out \<noteq> []" by blast
            obtain lines where "fallback_authors_from_lines lines = Some out"
              using fa out(1)
              by (auto simp: fallback_authors_from_pdf_def split: sum.splits)
            moreover have "authors (parse_pdf cy env p) = out"
              using eq out by (simp add: merge_authors_def)
            ultimately show ?thesis by blast
          next
            case False
            then have "merge_authors a pa = a"
              by (auto simp: merge_authors_def split: option.splits)
            then show ?thesis using eq a by auto
          qed
        qed
      qed
    qed
  qed
qed

lemma parse_pdf_authors_distinct: "distinct (map str_lower (authors (parse_pdf cy env p)))"
proof -
  from parse_pdf_authors_cases[of cy env p]
  consider "authors (parse_pdf cy env p) = []"
    | hdr where "authors (parse_pdf cy env p) = header_authors hdr"
    | lines where "fallback_authors_from_lines lines = Some (authors (parse_pdf cy env p))"
    by blast
  then show ?thesis
  proof cases
    case 1
    then show ?thesis by simp
  next
    case 2
    then show ?thesis using header_authors_distinct by simp
  next
    case 3
    from fallback_authors_out(2)[OF 3] show ?thesis
      by (rule distinct_map_finer) (rule norm_person_lower)
  qed
qed

text \<open>
  Claim C7, amended. The structured path de-duplicates by the lowercased name only, the
  label-anchored path by \<open>norm_person\<close>. On either path no two authors are equal when
  lowercased, the list is a subsequence of the extracted names, and each author kept is
  the first of the extracted names with its key; on the label-anchored path no two
  authors have the same \<open>norm_person\<close> key. The authors of the record returned by
  \<open>parse_pdf\<close> are pairwise different when lowercased.
\<close>

theorem authors_deduplicated_in_order:
  "distinct (map str_lower (header_authors hdr))
   \<and> subseq (header_authors hdr) (extracted_names hdr)
   \<and> (\<forall>a \<in> set (header_authors hdr).
         find (\<lambda>b. str_lower b = str_lower a) (extracted_names hdr) = Some a)
   \<and> (fallback_authors_from_lines lines = Some out \<longrightarrow>
         distinct (map norm_person out) \<and> distinct (map str_lower out)
         \<and> subseq out (extract_block_after_label lines ''author:'')
         \<and> (\<forall>a \<in> set out.
               find (\<lambda>b. norm_person b = norm_person a)
                 (filter looks_like_name (extract_block_after_label lines ''author:'')) = Some a))
   \<and> distinct (map str_lower (authors (parse_pdf cy env p)))"
proof -
  have a: "\<forall>a \<in> set (header_authors hdr).
         find (\<lambda>b. str_lower b = str_lower a) (extracted_names hdr) = Some a"
    unfolding header_authors_def using dedup_lower_first by blast
  have b: "subseq (header_authors hdr) (extracted_names hdr)"
    by (simp add: header_authors_def dedup_lower_subseq)
  have c: "fallback_authors_from_lines lines = Some out \<longrightarrow>
         distinct (map norm_person out) \<and> distinct (map str_lower out)
         \<and> subseq out (extract_block_after_label lines ''author:'')
         \<and> (\<forall>a \<in> set out.
               find (\<lambda>b. norm_person b = norm_person a)
                 (filter looks_like_name (extract_block_after_label lines ''author:'')) = Some a)"
  proof
    assume h: "fallback_authors_from_lines lines = Some out"
    have d: "distinct (map norm_person out)" by (rule fallback_authors_out(2)[OF h])
    have "distinct (map str_lower out)"
      using d by (rule distinct_map_finer) (rule norm_person_lower)
    moreover have "\<forall>a \<in> set out.
               find (\<lambda>b. norm_person b = norm_person a)
                 (filter looks_like_name (extract_block_after_label lines ''author:'')) = Some a"
      using fallback_authors_out(4)[OF h] author_names_first by blast
    ultimately show "distinct (map norm_person out) \<and> distinct (map str_lower out)
         \<and> subseq out (extract_block_after_label lines ''author:'')
         \<and> (\<forall>a \<in> set out.
               find (\<lambda>b. norm_person b = norm_person a)
                 (filter looks_like_name (extract_block_after_label lines ''author:'')) = Some a)"
      using d fallback_authors_out(3)[OF h] by blast
  qed
  show ?thesis
    using a b c header_authors_distinct [of hdr] parse_pdf_authors_distinct [of cy env p]
    by blast
qed

theorem authors_deduplicated_in_order_witness:
  "fallback_authors_from_lines [''Author:'', ''John Smith'', ''Jane Doe'', ''JOHN  smith''] 
     = Some [''John Smith'', ''Jane Doe'']
   \<and> distinct (map norm_person [''John Smith'', ''Jane Doe''])
   \<and> subseq [''John Smith'', ''Jane Doe'']
        (extract_block_after_label [''Author:'', ''John Smith'', ''Jane Doe'', ''JOHN  smith''] ''author:'')"
proof -
  have a: "fallback_authors_from_lines [''Author:'', ''John Smith'', ''Jane Doe'', ''JOHN  smith'']
     = Some [''John Smith'', ''Jane Doe'']"
    by code_simp
  show ?thesis
    using authors_deduplicated_in_order
      [of _ "[''Author:'', ''John Smith'', ''Jane Doe'', ''JOHN  smith'']" "[''John Smith'', ''Jane Doe'']"] a
    by blast
qed

text \<open>
  Claim C7 as stated fails on the structured path: two names that differ by a punctuation
  mark only are both kept, though they agree once lowercased and stripped of it.
\<close>

theorem authors_same_stripped_key_counterexample:
  "authors (parse_pdf 2026
     \<lparr>grobid_header =
        Inr \<lparr>title_el = Some ''T'',
             author_els = [Some (PersName [''John''] (Some ''Smith'')),
                           Some (PersName [''John''] (Some ''Smith*''))],
             imprint_dates = [], header_dates = [], monogr_el = None, bibl_scopes = [],
             meeting_el = None, header_el = None\<rparr>,
      reader_year = Inr [], reader_title = Inr [], reader_authors = Inr []\<rparr> ''a.pdf'')
     = [''John Smith'', ''John Smith*'']
   \<and> norm_person ''John Smith'' = norm_person ''John Smith*''
   \<and> filter (\<lambda>c. c \<noteq> CHR ''*'') (str_lower ''John Smith*'') = str_lower ''John Smith''"
  by code_simp

text \<open>
  Claim C6, amended. When name filtering of the author block leaves no name, the
  extractor reports no result. Otherwise, when some author is outside the peer set, the
  result is the authors outside the peer set, so none of them is in it; when every author
  is in the peer set, the result is the unfiltered author list.
\<close>

theorem peers_removed_unless_all_are_peers:
  "(author_names lines = [] \<longrightarrow> fallback_authors_from_lines lines = None)
   \<and> (fallback_authors_from_lines lines = Some out
       \<and> (\<exists>a \<in> set (author_names lines). norm_person a \<notin> peer_set lines)
       \<longrightarrow> out = filter (\<lambda>a. norm_person a \<notin> peer_set lines) (author_names lines)
           \<and> (\<forall>a \<in> set out. norm_person a \<notin> peer_set lines))
   \<and> (fallback_authors_from_lines lines = Some out
       \<and> (\<forall>a \<in> set (author_names lines). norm_person a \<in> peer_set lines)
       \<longrightarrow> out = author_names lines)"
proof -
  let ?cl = "filter (\<lambda>a. norm_person a \<notin> peer_set lines) (author_names lines)"
  have ne: "?cl \<noteq> [] \<longleftrightarrow> (\<exists>a \<in> set (author_names lines). norm_person a \<notin> peer_set lines)"
    by (simp add: filter_empty_conv)
  have out: "fallback_authors_from_lines lines = Some out \<Longrightarrow>
        out = (if ?cl \<noteq> [] then ?cl else author_names lines)"
    by (rule fallback_authors_cases(2))
  have a: "author_names lines = [] \<longrightarrow> fallback_authors_from_lines lines = None"
    using fallback_authors_none [of lines] by blast
  have b: "fallback_authors_from_lines lines = Some out
       \<and> (\<exists>a \<in> set (author_names lines). norm_person a \<notin> peer_set lines)
       \<longrightarrow> out = ?cl \<and> (\<forall>a \<in> set out. norm_person a \<notin> peer_set lines)"
  proof
    assume h: "fallback_authors_from_lines lines = Some out
       \<and> (\<exists>a \<in> set (author_names lines). norm_person a \<notin> peer_set lines)"
    then have "?cl \<noteq> []" using ne by blast
    then have o: "out = ?cl" using out h by presburger
    have "\<forall>a \<in> set ?cl. norm_person a \<notin> peer_set lines" by simp
    then show "out = ?cl \<and> (\<forall>a \<in> set out. norm_person a \<notin> peer_set lines)"
      using o by blast
  qed
  have c: "fallback_authors_from_lines lines = Some out
       \<and> (\<forall>a \<in> set (author_names lines). norm_person a \<in> peer_set lines)
       \<longrightarrow> out = author_names lines"
  proof
    assume h: "fallback_authors_from_lines lines = Some out
       \<and> (\<forall>a \<in> set (author_names lines). norm_person a \<in> peer_set lines)"
    then have "\<not> ?cl \<noteq> []" using ne by blast
    then show "out = author_names lines" using out h by presburger
  qed
  show ?thesis using a b c by blast
qed

theorem peers_removed_unless_all_are_peers_witness:
  "fallback_authors_from_lines
     [''Author:'', ''John Smith'', ''Jane Doe'', ''Peer reviewed by:'', ''John Smith'']
     = Some [''Jane Doe'']
   \<and> norm_person ''Jane Doe'' \<notin> peer_set
        [''Author:'', ''John Smith'', ''Jane Doe'', ''Peer reviewed by:'', ''John Smith'']
   \<and> fallback_authors_from_lines [''Author:'', ''12 Main''] = None"
proof -
  let ?L = "[''Author:'', ''John Smith'', ''Jane Doe'', ''Peer reviewed by:'', ''John Smith'']"
  have a: "fallback_authors_from_lines ?L = Some [''Jane Doe'']"
    by code_simp
  have b: "author_names ?L = [''John Smith'', ''Jane Doe'']"
    by code_simp
  have c: "norm_person ''Jane Doe'' \<notin> peer_set ?L"
    by code_simp
  have d: "author_names [''Author:'', ''12 Main''] = []"
    by code_simp
  have e: "\<exists>a \<in> set (author_names ?L). norm_person a \<notin> peer_set ?L"
    unfolding b using c by simp
  have "\<forall>a \<in> set [''Jane Doe'']. norm_person a \<notin> peer_set ?L"
    using peers_removed_unless_all_are_peers [of ?L "[''Jane Doe'']"] a e by blast
  moreover have "fallback_authors_from_lines [''Author:'', ''12 Main''] = None"
    using peers_removed_unless_all_are_peers [of "[''Author:'', ''12 Main'']"] d by blast
  ultimately show ?thesis using a by simp
qed

text \<open>
  Claim C6 as stated fails: an only author who is also listed as a peer reviewer is
  returned.
\<close>

theorem peer_kept_as_author_counterexample:
  "fallback_authors_from_lines [''Author:'', ''John Smith'', ''Peer reviewed by:'', ''John Smith'']
     = Some [''John Smith'']
   \<and> norm_person ''John Smith''
       \<in> peer_set [''Author:'', ''John Smith'', ''Peer reviewed by:'', ''John Smith'']"
  by code_simp


section \<open>Noise lines: properties\<close>

subsection \<open>What whitespace normalisation preserves\<close>

lemma is_space_blank: "is_space CHR '' ''"
  by (simp add: is_space_def code_def)

lemma filter_dropWhile_not: "filter (\<lambda>c. \<not> P c) (dropWhile P xs) = filter (\<lambda>c. \<not> P c) xs"
  by (induction xs) auto

lemma nonspace_collapse_ws:
  "filter (\<lambda>c. \<not> is_space c) (collapse_ws s) = filter (\<lambda>c. \<not> is_space c) s"
proof (induction s rule: collapse_ws.induct)
  case 1
  then show ?case by simp
next
  case (2 c)
  then show ?case by simp
next
  case (3 c d cs)
  show ?case
  proof (cases "is_space c \<and> is_space d")
    case True
    then show ?thesis using 3(1) by (simp add: is_space_blank filter_dropWhile_not)
  next
    case False
    then show ?thesis using 3(2) by auto
  qed
qed

lemma nonspace_str_strip:
  "filter (\<lambda>c. \<not> is_space c) (str_strip s) = filter (\<lambda>c. \<not> is_space c) s"
proof -
  have "filter (\<lambda>c. \<not> is_space c) (str_strip s)
      = rev (filter (\<lambda>c. \<not> is_space c) (dropWhile is_space (rev (dropWhile is_space s))))"
    by (simp add: str_strip_def rev_filter)
  also have "\<dots> = rev (filter (\<lambda>c. \<not> is_space c) (rev (dropWhile is_space s)))"
    by (simp only: filter_dropWhile_not)
  also have "\<dots> = filter (\<lambda>c. \<not> is_space c) (dropWhile is_space s)"
    by (simp add: rev_filter)
  finally show ?thesis by (simp only: filter_dropWhile_not)
qed

lemma nonspace_norm_spaces:
  "filter (\<lambda>c. \<not> is_space c) (norm_spaces s) = filter (\<lambda>c. \<not> is_space c) s"
  by (simp add: norm_spaces_def nonspace_str_strip nonspace_collapse_ws)

lemma nonspace_mem_norm_spaces:
  assumes "\<not> is_space c"
  shows "c \<in> set (norm_spaces s) \<longleftrightarrow> c \<in> set s"
proof -
  have "c \<in> set (norm_spaces s) \<longleftrightarrow> c \<in> set (filter (\<lambda>c. \<not> is_space c) (norm_spaces s))"
    using assms by simp
  also have "\<dots> \<longleftrightarrow> c \<in> set (filter (\<lambda>c. \<not> is_space c) s)"
    by (simp only: nonspace_norm_spaces)
  also have "\<dots> \<longleftrightarrow> c \<in> set s" using assms by simp
  finally show ?thesis .
qed

lemma count_list_filter: "Q c \<Longrightarrow> count_list (filter Q xs) c = count_list xs c"
  by (induction xs) auto

lemma count_norm_spaces:
  assumes "\<not> is_space c"
  shows "count_list (norm_spaces s) c = count_list s c"
proof -
  have "count_list (norm_spaces s) c = count_list (filter (\<lambda>c. \<not> is_space c) (norm_spaces s)) c"
    using assms by (simp add: count_list_filter)
  also have "\<dots> = count_list (filter (\<lambda>c. \<not> is_space c) s) c"
    by (simp only: nonspace_norm_spaces)
  also have "\<dots> = count_list s c" using assms by (simp add: count_list_filter)
  finally show ?thesis .
qed

lemma contains_single: "contains [c] s \<longleftrightarrow> c \<in> set s"
  by (induction s) auto

lemma contains_iff: "contains k s \<longleftrightarrow> (\<exists>a b. s = a @ k @ b)"
proof (induction s)
  case Nil
  then show ?case by auto
next
  case (Cons c cs)
  show ?case
  proof
    assume "contains k (c # cs)"
    then consider "prefix k (c # cs)" | "contains k cs" by auto
    then show "\<exists>a b. c # cs = a @ k @ b"
    proof cases
      case 1
      then obtain b where "c # cs = k @ b" by (auto simp: prefix_def)
      then have "c # cs = [] @ k @ b" by simp
      then show ?thesis by blast
    next
      case 2
      then obtain a b where "cs = a @ k @ b" using Cons.IH by blast
      then have "c # cs = (c # a) @ k @ b" by simp
      then show ?thesis by blast
    qed
  next
    assume "\<exists>a b. c # cs = a @ k @ b"
    then obtain a b where ab: "c # cs = a @ k @ b" by blast
    show "contains k (c # cs)"
    proof (cases a)
      case Nil
      then have "prefix k (c # cs)" using ab by (simp add: prefix_def)
      then show ?thesis by simp
    next
      case (Cons x a')
      then have "cs = a' @ k @ b" using ab by simp
      then have "contains k cs" using Cons.IH by blast
      then show ?thesis by simp
    qed
  qed
qed

lemma rx_search_at_Cls:
  "rx_search_at (Cls P) p s i \<noteq> None \<longleftrightarrow> (\<exists>c \<in> set s. P c)"
  by (induction s arbitrary: p i) auto

lemma has_digit_iff: "has_digit s \<longleftrightarrow> (\<exists>c \<in> set s. is_digit c)"
  unfolding has_digit_def rx_search_def by (rule rx_search_at_Cls)

lemma digit_not_space: "is_digit c \<Longrightarrow> \<not> is_space c"
  by (auto simp: is_digit_def is_space_def Let_def)

lemma has_digit_norm_spaces: "has_digit (norm_spaces s) \<longleftrightarrow> has_digit s"
  unfolding has_digit_iff using nonspace_mem_norm_spaces digit_not_space by blast


subsection \<open>Words\<close>

lemma str_split_space_Cons: "is_space c \<Longrightarrow> str_split (c # cs) = str_split cs"
  by (subst (1 2) str_split.simps) simp

lemma str_split_dropWhile: "str_split (dropWhile is_space s) = str_split s"
  by (subst (1 2) str_split.simps) simp

lemma str_split_all_space:
  assumes "\<forall>c \<in> set s. is_space c"
  shows "str_split s = []"
proof -
  have d: "dropWhile is_space s = []" using assms by (simp add: dropWhile_eq_Nil_conv)
  show ?thesis by (subst str_split.simps) (simp only: d list.case)
qed

lemma str_split_Nil: "str_split [] = []"
  by (simp add: str_split_all_space)

lemma str_split_nonspace_Cons:
  assumes "\<not> is_space c"
  shows "str_split (c # X) =
     (if X = [] \<or> is_space (hd X) then [c] # str_split X
      else (c # hd (str_split X)) # tl (str_split X))"
proof (cases X)
  case Nil
  have "str_split [c] = [[c]]" using assms
    by (subst str_split.simps, simp, subst str_split.simps, simp)
  then show ?thesis using Nil by (simp add: str_split_Nil)
next
  case (Cons x X')
  have l: "str_split (c # x # X')
      = (c # takeWhile (\<lambda>x. \<not> is_space x) (x # X'))
        # str_split (dropWhile (\<lambda>x. \<not> is_space x) (x # X'))"
    using assms by (subst str_split.simps) simp
  show ?thesis
  proof (cases "is_space x")
    case True
    then show ?thesis using l Cons by simp
  next
    case False
    have r: "str_split (x # X')
      = (x # takeWhile (\<lambda>x. \<not> is_space x) X')
        # str_split (dropWhile (\<lambda>x. \<not> is_space x) X')"
      using False by (subst str_split.simps) simp
    show ?thesis using l r False Cons by simp
  qed
qed

lemma collapse_ws_hd:
  "X \<noteq> [] \<Longrightarrow> collapse_ws X \<noteq> [] \<and> is_space (hd (collapse_ws X)) = is_space (hd X)"
proof (cases X rule: collapse_ws.cases)
  case 1
  then show "X \<noteq> [] \<Longrightarrow> ?thesis" by simp
next
  case (2 c)
  then show ?thesis by simp
next
  case (3 c d cs)
  then show ?thesis by (simp add: is_space_blank)
qed

lemma str_split_collapse_ws: "str_split (collapse_ws s) = str_split s"
proof (induction s rule: collapse_ws.induct)
  case 1
  then show ?case by simp
next
  case (2 c)
  then show ?case by simp
next
  case (3 c d cs)
  show ?case
  proof (cases "is_space c \<and> is_space d")
    case True
    have "str_split (collapse_ws (c # d # cs)) = str_split (collapse_ws (dropWhile is_space cs))"
      using True by (simp add: str_split_space_Cons is_space_blank)
    also have "\<dots> = str_split (dropWhile is_space cs)" using 3(1) True by simp
    also have "\<dots> = str_split cs" by (rule str_split_dropWhile)
    also have "\<dots> = str_split (c # d # cs)" using True by (simp add: str_split_space_Cons)
    finally show ?thesis .
  next
    case False
    then have ih: "str_split (collapse_ws (d # cs)) = str_split (d # cs)" using 3(2) by simp
    have eq: "collapse_ws (c # d # cs) = c # collapse_ws (d # cs)" using False by auto
    show ?thesis
    proof (cases "is_space c")
      case True
      then show ?thesis unfolding eq using ih by (simp add: str_split_space_Cons)
    next
      case nsp: False
      have h: "collapse_ws (d # cs) \<noteq> []"
        "is_space (hd (collapse_ws (d # cs))) = is_space (hd (d # cs))"
        using collapse_ws_hd[of "d # cs"] by auto
      show ?thesis unfolding eq
        by (simp only: str_split_nonspace_Cons[OF nsp] ih h) simp
    qed
  qed
qed

lemma str_split_trailing:
  "\<forall>c \<in> set b. is_space c \<Longrightarrow> str_split (a @ b) = str_split a"
proof (induction a)
  case Nil
  then show ?case by (simp add: str_split_all_space)
next
  case (Cons c a)
  show ?case
  proof (cases "is_space c")
    case True
    then show ?thesis using Cons by (simp add: str_split_space_Cons)
  next
    case False
    have ih: "str_split (a @ b) = str_split a" using Cons by simp
    show ?thesis
    proof (cases "a = []")
      case True
      have "b = [] \<or> is_space (hd b)" using Cons.prems by (cases b) auto
      then show ?thesis using True False ih
        by (auto simp: str_split_nonspace_Cons)
    next
      case ne: False
      then have "hd (a @ b) = hd a" "a @ b \<noteq> []" by auto
      then show ?thesis using False ih ne
        by (simp add: str_split_nonspace_Cons)
    qed
  qed
qed

lemma rev_dropWhile_decomp:
  "t = rev (dropWhile P (rev t)) @ rev (takeWhile P (rev t))"
proof -
  have "rev t = takeWhile P (rev t) @ dropWhile P (rev t)" by simp
  then have "rev (rev t) = rev (takeWhile P (rev t) @ dropWhile P (rev t))" by simp
  then show ?thesis by (simp only: rev_rev_ident rev_append)
qed

lemma str_split_str_strip: "str_split (str_strip s) = str_split s"
proof -
  let ?t = "dropWhile is_space s"
  have "\<forall>c \<in> set (rev (takeWhile is_space (rev ?t))). is_space c"
    by (auto dest: set_takeWhileD)
  then have "str_split (rev (dropWhile is_space (rev ?t)) @ rev (takeWhile is_space (rev ?t)))
      = str_split (rev (dropWhile is_space (rev ?t)))"
    by (rule str_split_trailing)
  then have "str_split ?t = str_split (str_strip s)"
    using rev_dropWhile_decomp[of ?t is_space] by (simp add: str_strip_def)
  then show ?thesis by (simp add: str_split_dropWhile)
qed

lemma str_split_norm_spaces: "str_split (norm_spaces s) = str_split s"
  by (simp add: norm_spaces_def str_split_str_strip str_split_collapse_ws)

subsection \<open>Space-free substrings\<close>

lemma dropWhile_space_word:
  assumes "k \<noteq> []" "\<not> is_space (hd k)"
  shows "dropWhile is_space (a @ k @ b) = dropWhile is_space a @ k @ b"
proof -
  obtain h k' where k: "k = h # k'" using assms(1) by (cases k) auto
  then have "\<not> is_space h" using assms(2) by simp
  then show ?thesis unfolding k by (simp add: dropWhile_append)
qed

lemma collapse_ws_nonspace_Cons: "\<not> is_space c \<Longrightarrow> collapse_ws (c # r) = c # collapse_ws r"
  by (cases r) auto

lemma collapse_ws_word:
  "\<forall>c \<in> set k. \<not> is_space c \<Longrightarrow> collapse_ws (k @ b) = k @ collapse_ws b"
  by (induction k) (auto simp: collapse_ws_nonspace_Cons)

lemma collapse_ws_before_word:
  assumes "k \<noteq> []" "\<not> is_space (hd k)"
  shows "\<exists>X. collapse_ws (a @ k @ b) = X @ collapse_ws (k @ b)"
proof (induction a rule: collapse_ws.induct)
  case 1
  then show ?case by simp
next
  case (2 c)
  obtain h k' where k: "k = h # k'" using assms(1) by (cases k) auto
  then have "\<not> is_space h" using assms(2) by simp
  then have "collapse_ws ([c] @ k @ b) = [c] @ collapse_ws (k @ b)" unfolding k by simp
  then show ?case by blast
next
  case (3 c d cs)
  show ?case
  proof (cases "is_space c \<and> is_space d")
    case True
    then obtain X where X: "collapse_ws (dropWhile is_space cs @ k @ b) = X @ collapse_ws (k @ b)"
      using 3(1) by blast
    have "collapse_ws ((c # d # cs) @ k @ b)
        = CHR '' '' # collapse_ws (dropWhile is_space (cs @ k @ b))"
      using True by simp
    also have "\<dots> = (CHR '' '' # X) @ collapse_ws (k @ b)"
      using X by (simp add: dropWhile_space_word[OF assms])
    finally show ?thesis by blast
  next
    case False
    then obtain X where X: "collapse_ws ((d # cs) @ k @ b) = X @ collapse_ws (k @ b)"
      using 3(2) by blast
    have "collapse_ws ((c # d # cs) @ k @ b) = c # collapse_ws ((d # cs) @ k @ b)"
      using False by auto
    then have "collapse_ws ((c # d # cs) @ k @ b) = (c # X) @ collapse_ws (k @ b)"
      using X by simp
    then show ?thesis by blast
  qed
qed

lemma contains_collapse_ws:
  assumes "k \<noteq> []" "\<forall>c \<in> set k. \<not> is_space c" "contains k s"
  shows "contains k (collapse_ws s)"
proof -
  obtain a b where s: "s = a @ k @ b" using assms(3) contains_iff by blast
  have h: "\<not> is_space (hd k)" using assms(1,2) by (cases k) auto
  obtain X where "collapse_ws (a @ k @ b) = X @ collapse_ws (k @ b)"
    using collapse_ws_before_word[OF assms(1) h] by blast
  then have "collapse_ws s = X @ k @ collapse_ws b"
    using s collapse_ws_word[OF assms(2)] by simp
  then show ?thesis using contains_iff by blast
qed

lemma contains_dropWhile_space:
  assumes "k \<noteq> []" "\<not> is_space (hd k)" "contains k s"
  shows "contains k (dropWhile is_space s)"
proof -
  obtain a b where "s = a @ k @ b" using assms(3) contains_iff by blast
  then have "dropWhile is_space s = dropWhile is_space a @ k @ b"
    using dropWhile_space_word[OF assms(1,2)] by simp
  then show ?thesis using contains_iff by blast
qed

lemma contains_rev: "contains k s \<Longrightarrow> contains (rev k) (rev s)"
proof -
  assume "contains k s"
  then obtain a b where "s = a @ k @ b" using contains_iff by blast
  then have "rev s = rev b @ rev k @ rev a" by simp
  then show ?thesis using contains_iff by blast
qed

lemma contains_str_strip:
  assumes "k \<noteq> []" "\<forall>c \<in> set k. \<not> is_space c" "contains k s"
  shows "contains k (str_strip s)"
proof -
  have h: "\<not> is_space (hd k)" using assms(1,2) by (cases k) auto
  have l: "\<not> is_space (hd (rev k))" using assms(1,2) by (simp add: hd_rev)
  have "contains k (dropWhile is_space s)"
    by (rule contains_dropWhile_space[OF assms(1) h assms(3)])
  then have "contains (rev k) (rev (dropWhile is_space s))" by (rule contains_rev)
  then have "contains (rev k) (dropWhile is_space (rev (dropWhile is_space s)))"
    using assms(1) l by (intro contains_dropWhile_space) auto
  then have "contains (rev (rev k)) (rev (dropWhile is_space (rev (dropWhile is_space s))))"
    by (rule contains_rev)
  then show ?thesis by (simp add: str_strip_def)
qed

lemma contains_norm_spaces:
  assumes "k \<noteq> []" "\<forall>c \<in> set k. \<not> is_space c" "contains k s"
  shows "contains k (norm_spaces s)"
  unfolding norm_spaces_def
  by (rule contains_str_strip[OF assms(1,2)]) (rule contains_collapse_ws[OF assms])

lemma is_space_lower_chr: "is_space (lower_chr c) = is_space c"
proof -
  have "code c < 256" by (simp add: code_def)
  then show ?thesis
    by (auto simp: lower_chr_def is_space_def Let_def code_def)
qed

lemma contains_lower_norm_spaces:
  assumes "k \<noteq> []" "\<forall>c \<in> set k. \<not> is_space c" "contains k (str_lower s)"
  shows "contains k (str_strip (str_lower (norm_spaces s)))"
proof -
  obtain a b where "map lower_chr s = a @ k @ b"
    using assms(3) contains_iff unfolding str_lower_def by blast
  then have "map lower_chr s = a @ (k @ b)" by simp
  then have "\<exists>us vs. s = us @ vs \<and> a = map lower_chr us \<and> k @ b = map lower_chr vs"
    by (simp only: map_eq_append_conv)
  then obtain a' vs where s1: "s = a' @ vs" and vs: "k @ b = map lower_chr vs"
    by blast
  from vs have "\<exists>us ws. vs = us @ ws \<and> k = map lower_chr us \<and> b = map lower_chr ws"
    by (simp only: append_eq_map_conv)
  then obtain k' b' where s2: "vs = k' @ b'" and k': "map lower_chr k' = k"
    by blast
  have s: "s = a' @ k' @ b'" using s1 s2 by simp
  have "k' \<noteq> []" using k' assms(1) by auto
  moreover have "\<forall>c \<in> set k'. \<not> is_space c"
    using k' assms(2) is_space_lower_chr by auto
  moreover have "contains k' s" using s contains_iff by blast
  ultimately have "contains k' (norm_spaces s)" by (rule contains_norm_spaces)
  then obtain x y where "norm_spaces s = x @ k' @ y" using contains_iff by blast
  then have "str_lower (norm_spaces s) = map lower_chr x @ k @ map lower_chr y"
    using k' by (simp add: str_lower_def)
  then have "contains k (str_lower (norm_spaces s))" using contains_iff by blast
  then show ?thesis by (rule contains_str_strip[OF assms(1,2)])
qed

lemma affiliation_words_plain:
  "k \<in> set affiliation_words \<Longrightarrow> k \<noteq> [] \<and> (\<forall>c \<in> set k. \<not> is_space c)"
proof -
  have "list_all (\<lambda>k. k \<noteq> [] \<and> list_all (\<lambda>c. \<not> is_space c) k) affiliation_words"
    by code_simp
  then show "k \<in> set affiliation_words \<Longrightarrow> k \<noteq> [] \<and> (\<forall>c \<in> set k. \<not> is_space c)"
    by (simp add: list_all_iff)
qed

lemma at_not_space: "\<not> is_space CHR ''@''" and comma_not_space: "\<not> is_space CHR '',''"
  by code_simp+

lemma noise_email: "contains ''@'' line \<Longrightarrow> looks_like_noise_line line"
proof -
  assume "contains ''@'' line"
  then have "CHR ''@'' \<in> set (norm_spaces line)"
    by (simp add: contains_single nonspace_mem_norm_spaces at_not_space)
  then have "contains ''@'' (norm_spaces line)" by (simp add: contains_single)
  then show ?thesis unfolding looks_like_noise_line_def Let_def by blast
qed

lemma noise_commas:
  assumes "3 \<le> count_list line CHR '',''" "8 < length (str_split line)"
  shows "looks_like_noise_line line"
proof -
  have "3 \<le> count_list (norm_spaces line) CHR '',''"
    using assms(1) by (simp add: count_norm_spaces comma_not_space)
  moreover have "8 < length (str_split (norm_spaces line))"
    using assms(2) by (simp add: str_split_norm_spaces)
  ultimately show ?thesis unfolding looks_like_noise_line_def Let_def by blast
qed

lemma noise_affiliation:
  assumes "\<exists>k \<in> set affiliation_words. contains k (str_lower line)"
    and "contains '','' line" and "\<exists>c \<in> set line. is_digit c"
  shows "looks_like_noise_line line"
proof -
  obtain k where k: "k \<in> set affiliation_words" "contains k (str_lower line)"
    using assms(1) by blast
  have "contains k (str_strip (str_lower (norm_spaces line)))"
    using affiliation_words_plain[OF k(1)] k(2) by (intro contains_lower_norm_spaces) auto
  then have a: "\<exists>k \<in> set affiliation_words. contains k (str_strip (str_lower (norm_spaces line)))"
    using k(1) by blast
  have b: "contains '','' (norm_spaces line)"
    using assms(2) by (simp add: contains_single nonspace_mem_norm_spaces comma_not_space)
  have "has_digit line" using assms(3) by (simp only: has_digit_iff)
  then have c: "has_digit (norm_spaces line)" by (simp only: has_digit_norm_spaces)
  show ?thesis unfolding looks_like_noise_line_def Let_def using a b c by blast
qed

text \<open>
  Claim C8, amended. \<open>looks_like_noise_line\<close> holds of every line that contains an email
  marker, of every line with at least three commas and more than eight words, and of
  every line that contains an affiliation keyword (in any letter case), a comma and a
  digit.
\<close>

theorem noise_line_rules:
  "(contains ''@'' line \<longrightarrow> looks_like_noise_line line)
   \<and> (3 \<le> count_list line CHR '','' \<and> 8 < length (str_split line)
        \<longrightarrow> looks_like_noise_line line)
   \<and> ((\<exists>k \<in> set affiliation_words. contains k (str_lower line))
        \<and> contains '','' line \<and> (\<exists>c \<in> set line. is_digit c)
        \<longrightarrow> looks_like_noise_line line)"
  using noise_email [of line] noise_commas [of line] noise_affiliation [of line]
  by blast

theorem noise_line_rules_witness:
  "contains ''@'' ''a@b.org'' \<and> looks_like_noise_line ''a@b.org''
   \<and> 3 \<le> count_list ''A, B, C, D and E of the F G H'' CHR '',''
   \<and> 8 < length (str_split ''A, B, C, D and E of the F G H'')
   \<and> looks_like_noise_line ''A, B, C, D and E of the F G H''
   \<and> contains ''department'' (str_lower ''Department 7, X'')
   \<and> looks_like_noise_line ''Department 7, X''"
proof -
  have a: "contains ''@'' ''a@b.org''"
    "3 \<le> count_list ''A, B, C, D and E of the F G H'' CHR '',''"
    "8 < length (str_split ''A, B, C, D and E of the F G H'')"
    "contains ''department'' (str_lower ''Department 7, X'')"
    "''department'' \<in> set affiliation_words"
    "contains '','' ''Department 7, X''"
    "is_digit CHR ''7''"
    by code_simp+
  have b: "\<exists>k \<in> set affiliation_words. contains k (str_lower ''Department 7, X'')"
    using a(4,5) by blast
  have c: "\<exists>c \<in> set ''Department 7, X''. is_digit c"
    using a(7) by simp
  show ?thesis
    using noise_line_rules [of "''a@b.org''"] noise_line_rules [of "''A, B, C, D and E of the F G H''"]
      noise_line_rules [of "''Department 7, X''"] a b c
    by blast
qed

text \<open>
  Claim C8 as stated fails: an affiliation keyword with a digit but no comma is not
  classified as noise.
\<close>

theorem affiliation_with_digit_counterexample:
  "contains ''department'' (str_lower ''Department 7'')
   \<and> ''department'' \<in> set affiliation_words
   \<and> is_digit CHR ''7'' \<and> CHR ''7'' \<in> set ''Department 7''
   \<and> \<not> looks_like_noise_line ''Department 7''"
  by code_simp

end
